theory Spec2Isabelle
  imports Complex_Main "HOL-Library.AList" "HOL-Library.Multiset"
begin

section \<open>Data model (types.ts)\<close>

text \<open>
  \<^verbatim>\<open>Difficulty\<close> and \<^verbatim>\<open>Topic\<close> are closed unions of string literals; they become
  datatypes. A \<^verbatim>\<open>Question\<close> is an object with four required and three optional
  fields. The field \<^verbatim>\<open>id\<close> is called \<open>qid\<close> and \<^verbatim>\<open>text\<close> is called \<open>qtext\<close>
  here, since both names are taken in Isabelle.

  Question objects are never written to after their creation, and the stores never hold
  two objects with one id. The reference comparisons of the source (\<^verbatim>\<open>includes\<close>,
  \<^verbatim>\<open>indexOf\<close> on arrays of questions) are therefore modelled by equality of records.
\<close>

datatype Difficulty = Easy | Medium | Hard

datatype Topic =
    Arrays
  | Strings
  | LinkedLists
  | Trees
  | Graphs
  | DynamicProgramming
  | Sorting
  | Searching
  | Recursion
  | GreedyAlgorithms

record Question =
  qid :: string
  qtext :: string
  difficulty :: Difficulty
  topic :: Topic
  options :: "string list option"
  answer :: "string option"
  explanation :: "string option"

text \<open>
  \<^verbatim>\<open>TopicMap\<close>: an object keyed by topic whose values are objects keyed by the three
  difficulties. The outer object is an association list in insertion order (the order in
  which \<^verbatim>\<open>Object.keys\<close> lists the keys); the inner object, which always has exactly the
  three keys, is a function on \<open>Difficulty\<close>.
\<close>

type_synonym DifficultyBuckets = "Difficulty \<Rightarrow> Question list"

type_synonym TopicMap = "(Topic \<times> DifficultyBuckets) list"

record QuestionStore =
  store :: TopicMap
  idSet :: "string set"

record QuestionCounts =
  total_n :: nat
  byTopic :: "(Topic \<times> nat) list"
  byDifficulty :: "Difficulty \<Rightarrow> nat"

section \<open>QuestionStore (questionStore.ts)\<close>

definition allTopics :: "Topic list" where
  "allTopics = [Arrays, Strings, LinkedLists, Trees, Graphs,
     DynamicProgramming, Sorting, Searching, Recursion, GreedyAlgorithms]"

definition emptyBuckets :: DifficultyBuckets where
  "emptyBuckets = (\<lambda>d. [])"

text \<open>The constructor: one bucket object per topic, no ids.\<close>

definition newQuestionStore :: QuestionStore where
  "newQuestionStore = \<lparr> store = map (\<lambda>t. (t, emptyBuckets)) allTopics, idSet = {} \<rparr>"

text \<open>
  \<^verbatim>\<open>addQuestion\<close>: refuses an id that is in \<^verbatim>\<open>idSet\<close>; otherwise creates the topic's
  buckets if they are missing, pushes the question on the bucket of its topic and
  difficulty, and records the id. The boolean is the return value.
\<close>

definition addQuestion :: "QuestionStore \<Rightarrow> Question \<Rightarrow> bool \<times> QuestionStore" where
  "addQuestion s q =
     (if qid q \<in> idSet s then (False, s)
      else
        let b = (case map_of (store s) (topic q) of None \<Rightarrow> emptyBuckets | Some b \<Rightarrow> b);
            b' = b (difficulty q := b (difficulty q) @ [q])
        in (True, \<lparr> store = AList.update (topic q) b' (store s),
                    idSet = insert (qid q) (idSet s) \<rparr>))"

definition getQuestions :: "QuestionStore \<Rightarrow> Topic \<Rightarrow> Difficulty \<Rightarrow> Question list" where
  "getQuestions s t d = (case map_of (store s) t of None \<Rightarrow> [] | Some b \<Rightarrow> b d)"

definition getQuestionsByTopic :: "QuestionStore \<Rightarrow> Topic \<Rightarrow> Question list" where
  "getQuestionsByTopic s t =
     (case map_of (store s) t of None \<Rightarrow> [] | Some b \<Rightarrow> b Easy @ b Medium @ b Hard)"

definition getQuestionsByDifficulty :: "QuestionStore \<Rightarrow> Difficulty \<Rightarrow> Question list" where
  "getQuestionsByDifficulty s d = concat (map (\<lambda>(t, b). b d) (store s))"

definition getAllQuestions :: "QuestionStore \<Rightarrow> Question list" where
  "getAllQuestions s = concat (map (\<lambda>(t, b). b Easy @ b Medium @ b Hard) (store s))"

text \<open>
  \<^verbatim>\<open>findIndex(q => q.id === id)\<close> followed by \<^verbatim>\<open>splice(index, 1)\<close>: the first
  question with the id is taken out of the array.
\<close>

fun spliceById :: "string \<Rightarrow> Question list \<Rightarrow> Question list" where
  "spliceById i [] = []"
| "spliceById i (q # qs) = (if qid q = i then qs else q # spliceById i qs)"

definition hasId :: "string \<Rightarrow> Question list \<Rightarrow> bool" where
  "hasId i qs = (\<exists>q \<in> set qs. qid q = i)"

text \<open>
  \<^verbatim>\<open>removeQuestion\<close>: returns false on an id that is not in \<^verbatim>\<open>idSet\<close>; otherwise
  visits every bucket of every topic, splices the first match out of each, deletes the id
  from \<^verbatim>\<open>idSet\<close> when a bucket held it, and returns whether any bucket did.
\<close>

definition removeQuestion :: "QuestionStore \<Rightarrow> string \<Rightarrow> bool \<times> QuestionStore" where
  "removeQuestion s i =
     (if i \<notin> idSet s then (False, s)
      else
        let removed = (\<exists>(t, b) \<in> set (store s). \<exists>d \<in> {Easy, Medium, Hard}. hasId i (b d))
        in (removed,
            \<lparr> store = map (\<lambda>(t, b). (t, \<lambda>d. spliceById i (b d))) (store s),
              idSet = (if removed then idSet s - {i} else idSet s) \<rparr>))"

definition getQuestionCounts :: "QuestionStore \<Rightarrow> QuestionCounts" where
  "getQuestionCounts s =
     \<lparr> total_n = sum_list (map (\<lambda>(t, b). length (b Easy) + length (b Medium) + length (b Hard)) (store s)),
       byTopic = map (\<lambda>(t, b). (t, length (b Easy) + length (b Medium) + length (b Hard))) (store s),
       byDifficulty = (\<lambda>d. sum_list (map (\<lambda>(t, b). length (b d)) (store s))) \<rparr>"

subsection \<open>The sample questions\<close>

definition q1 :: Question where
  "q1 = \<lparr> qid = ''1'',
     qtext = ''What is the time complexity of a binary search algorithm?'',
     difficulty = Easy, topic = Searching,
     options = Some [''O(n)'', ''O(log n)'', ''O(n log n)'', ''O(n'' @ [CHR 0xB2] @ '')''],
     answer = Some ''O(log n)'',
     explanation = Some ''Binary search repeatedly divides the search space in half, resulting in logarithmic time complexity.'' \<rparr>"

definition q2 :: Question where
  "q2 = \<lparr> qid = ''2'',
     qtext = ''Describe the differences between a linked list and an array.'',
     difficulty = Easy, topic = Arrays, options = None,
     answer = Some ''Arrays have fixed size and contiguous memory, allow random access in O(1), but insertions can be O(n). Linked lists have dynamic size with non-contiguous memory, insertions are O(1) at known positions, but access is O(n).'',
     explanation = None \<rparr>"

definition q3 :: Question where
  "q3 = \<lparr> qid = ''3'',
     qtext = ''Implement a function to detect a cycle in a linked list.'',
     difficulty = Medium, topic = LinkedLists, options = None,
     answer = Some (''Use Floyd'' @ [CHR 0x27] @ ''s Cycle-Finding Algorithm (tortoise and hare) with two pointers moving at different speeds.''),
     explanation = None \<rparr>"

definition q4 :: Question where
  "q4 = \<lparr> qid = ''4'',
     qtext = ''Explain the concept of dynamic programming and provide an example.'',
     difficulty = Medium, topic = DynamicProgramming, options = None,
     answer = Some ''Dynamic programming breaks down complex problems into simpler subproblems, solving each subproblem once and storing results for future use. Examples include the Fibonacci sequence, knapsack problem, and longest common subsequence.'',
     explanation = None \<rparr>"

definition q5 :: Question where
  "q5 = \<lparr> qid = ''5'',
     qtext = ''Implement an algorithm to find the shortest path in a weighted graph.'',
     difficulty = Hard, topic = Graphs, options = None,
     answer = Some (''Use Dijkstra'' @ [CHR 0x27] @ ''s algorithm for graphs with non-negative weights, or Bellman-Ford for graphs that may contain negative weights.''),
     explanation = None \<rparr>"

definition q6 :: Question where
  "q6 = \<lparr> qid = ''6'',
     qtext = ''Compare and contrast the time complexity of different sorting algorithms.'',
     difficulty = Medium, topic = Sorting, options = None,
     answer = Some (''Quick Sort: Average O(n log n), worst O(n'' @ [CHR 0xB2] @ ''). Merge Sort: O(n log n) always. Bubble Sort: O(n'' @ [CHR 0xB2] @ ''). Heap Sort: O(n log n). Insertion Sort: Average O(n'' @ [CHR 0xB2] @ ''), best O(n).''),
     explanation = None \<rparr>"

definition q7 :: Question where
  "q7 = \<lparr> qid = ''7'',
     qtext = ''Explain the difference between a tree and a graph data structure.'',
     difficulty = Easy, topic = Trees, options = None,
     answer = Some ''A tree is a connected, acyclic graph with one path between any two vertices. A graph is a collection of nodes connected by edges that can contain cycles and multiple paths between nodes.'',
     explanation = None \<rparr>"

definition q8 :: Question where
  "q8 = \<lparr> qid = ''8'',
     qtext = ''Solve the N-Queens problem using backtracking.'',
     difficulty = Hard, topic = Recursion, options = None,
     answer = Some ''Use recursive backtracking to place queens one by one in different columns, and check for conflicts in rows, columns, and diagonals before placement.'',
     explanation = None \<rparr>"

definition q9 :: Question where
  "q9 = \<lparr> qid = ''9'',
     qtext = ''What is the difference between a greedy algorithm and dynamic programming?'',
     difficulty = Medium, topic = GreedyAlgorithms, options = None,
     answer = Some (''Greedy algorithms make locally optimal choices at each step to find a global optimum, while dynamic programming breaks problems into subproblems and builds up solutions by combining subproblem solutions. Greedy algorithms don'' @ [CHR 0x27] @ ''t guarantee optimal solutions for all problems.''),
     explanation = None \<rparr>"

definition q10 :: Question where
  "q10 = \<lparr> qid = ''10'',
     qtext = ''Implement an algorithm to find all permutations of a string.'',
     difficulty = Hard, topic = Strings, options = None,
     answer = Some (''Use recursive backtracking, swapping characters to generate all permutations. This can also be done iteratively using an algorithm like Heap'' @ [CHR 0x27] @ ''s algorithm.''),
     explanation = None \<rparr>"

definition sampleQuestions :: "Question list" where
  "sampleQuestions = [q1, q2, q3, q4, q5, q6, q7, q8, q9, q10]"

text \<open>\<^verbatim>\<open>sampleQuestions.forEach(q => questionStore.addQuestion(q))\<close> on a new store.\<close>

definition addQuestions :: "QuestionStore \<Rightarrow> Question list \<Rightarrow> QuestionStore" where
  "addQuestions s qs = foldl (\<lambda>s q. snd (addQuestion s q)) s qs"

definition questionStore :: QuestionStore where
  "questionStore = addQuestions newQuestionStore sampleQuestions"

text \<open>The states a store can be in: built by the constructor, changed by the two mutators.\<close>

inductive reachable :: "QuestionStore \<Rightarrow> bool" where
  reachable_new: "reachable newQuestionStore"
| reachable_add: "reachable s \<Longrightarrow> reachable (snd (addQuestion s q))"
| reachable_remove: "reachable s \<Longrightarrow> reachable (snd (removeQuestion s i))"


section \<open>QuestionSelector (questionSelector.ts)\<close>

text \<open>
  \<^verbatim>\<open>Math.random()\<close> is a global source of numbers; here it is a list of naturals that
  is consumed from the front, a missing number being read as 0.
  \<^verbatim>\<open>Math.floor(Math.random() * n)\<close> for \<open>n > 0\<close> is any index below \<open>n\<close>: the next number
  modulo \<open>n\<close>.
\<close>

type_synonym random_source = "nat list"

definition randomIndex :: "random_source \<Rightarrow> nat \<Rightarrow> nat \<times> random_source" where
  "randomIndex rnd n = (case rnd of [] \<Rightarrow> (0, []) | r # rs \<Rightarrow> (r mod n, rs))"

text \<open>
  \<^verbatim>\<open>getRandomElements\<close> (the selector and the graph manager each have a copy of it):
  \<^verbatim>\<open>for (let i = 0; i < count && copy.length > 0; i++)\<close> runs at most \<open>nat count\<close>
  times; each round moves the element at a random index of \<^verbatim>\<open>copy\<close> to the result.
\<close>

fun pickRandom :: "nat \<Rightarrow> random_source \<Rightarrow> 'a list \<Rightarrow> 'a list \<times> random_source" where
  "pickRandom 0 rnd copy = ([], rnd)"
| "pickRandom (Suc k) rnd copy =
     (if copy = [] then ([], rnd)
      else
        let (randomIndex, rnd') = randomIndex rnd (length copy);
            (result, rnd'') = pickRandom k rnd' (take randomIndex copy @ drop (Suc randomIndex) copy)
        in (copy ! randomIndex # result, rnd''))"

definition getRandomElements :: "random_source \<Rightarrow> 'a list \<Rightarrow> int \<Rightarrow> 'a list \<times> random_source" where
  "getRandomElements rnd array cnt = pickRandom (nat cnt) rnd array"

definition getAvailableQuestions :: "QuestionStore \<Rightarrow> Topic list \<Rightarrow> Question list" where
  "getAvailableQuestions s topics =
     (if length topics = 0 then getAllQuestions s
      else concat (map (getQuestionsByTopic s) topics))"

text \<open>
  The numbers of the source are IEEE 754 doubles. The weights, the counts and the sums and
  differences of them are integers of the range that doubles hold exactly
  (below \<open>2\<^sup>5\<^sup>3\<close>), so these are integers here and their arithmetic is exact. The quotient
  \<^verbatim>\<open>difficulties.Easy / totalWeight\<close> and its product with \<^verbatim>\<open>totalQuestions\<close> are not
  integers: each of the two operations yields the double nearest to the exact result, a tie
  going to the even significand. A double is a rational \<open>m * 2\<^sup>e\<close> with \<open>\<bar>m\<bar> \<le> 2\<^sup>5\<^sup>3\<close>;
  the exponents met here are far from the ends of the exponent range, which is left
  unbounded.

  \<open>binade x\<close> is the exponent \<open>e\<close> with \<open>2\<^sup>e \<le> x < 2\<^sup>e\<^sup>+\<^sup>1\<close> of a positive \<open>x\<close>.
\<close>

function binade :: "rat \<Rightarrow> int" where
  "binade x =
     (if x \<le> 0 then 0
      else if 2 \<le> x then binade (x / 2) + 1
      else if x < 1 then binade (x * 2) - 1
      else 0)"
  by pat_completeness auto
termination
proof (relation "measure (\<lambda>x. if 2 \<le> x then nat \<lfloor>x\<rfloor> else if x < 1 then nat \<lfloor>1 / x\<rfloor> else 0)", goal_cases)
  case 1
  show ?case by simp
next
  case (2 x)
  then have x: "2 \<le> x" by simp
  have "\<lfloor>x / 2\<rfloor> < \<lfloor>x\<rfloor>"
  proof -
    have "x / 2 + 1 \<le> x" using x by simp
    then have "\<lfloor>x / 2 + 1\<rfloor> \<le> \<lfloor>x\<rfloor>" by (rule floor_mono)
    then show ?thesis by simp
  qed
  moreover have "0 < \<lfloor>x\<rfloor>" using x by simp
  ultimately show ?case using x by auto
next
  case (3 x)
  then have x: "0 < x" "x < 1" by simp_all
  define y where "y = 1 / x"
  have y: "1 < y" using x by (simp add: y_def)
  have "\<lfloor>y / 2\<rfloor> < \<lfloor>y\<rfloor>"
  proof (cases "2 \<le> y")
    case True
    then have "y / 2 + 1 \<le> y" by simp
    then have "\<lfloor>y / 2 + 1\<rfloor> \<le> \<lfloor>y\<rfloor>" by (rule floor_mono)
    then show ?thesis by simp
  next
    case False
    then have "\<lfloor>y / 2\<rfloor> = 0" using y by (intro floor_unique) simp_all
    moreover have "1 \<le> \<lfloor>y\<rfloor>" using y by simp
    ultimately show ?thesis by simp
  qed
  moreover have "1 / (x * 2) = y / 2" by (simp add: y_def)
  moreover have "0 < \<lfloor>y\<rfloor>" using y by simp
  ultimately have "(if x * 2 < 1 then nat \<lfloor>1 / (x * 2)\<rfloor> else 0) < nat \<lfloor>1 / x\<rfloor>"
    by (simp only: y_def [symmetric] split: if_split) simp
  moreover have "\<not> 2 \<le> x * 2" "\<not> 2 \<le> x" using x by simp_all
  ultimately show ?case using x(2) by (simp only: in_measure if_False if_True)
qed

declare binade.simps [simp del]

text \<open>Rounding to the nearest integer, a tie going to the even one.\<close>

definition roundHalfEven :: "rat \<Rightarrow> int" where
  "roundHalfEven x =
     (let f = \<lfloor>x\<rfloor>; r = x - of_int f
      in if r < 1 / 2 then f
         else if 1 / 2 < r then f + 1
         else if even f then f else f + 1)"

text \<open>
  The double nearest to a rational: the value is scaled so that its integer part has 53
  bits, rounded, and scaled back.
\<close>

definition toDouble :: "rat \<Rightarrow> rat" where
  "toDouble x =
     (if x = 0 then 0
      else of_int (roundHalfEven (x / 2 powi (binade \<bar>x\<bar> - 52))) * 2 powi (binade \<bar>x\<bar> - 52))"

text \<open>
  \<^verbatim>\<open>Math.round\<close> rounds a double to the nearest integer, a half upwards; it is exact.
\<close>

definition mathRound :: "rat \<Rightarrow> int" where
  "mathRound x = \<lfloor>x + 1 / 2\<rfloor>"

text \<open>
  The loop over \<^verbatim>\<open>['Hard', 'Medium', 'Easy']\<close> that takes the excess away, with its
  \<^verbatim>\<open>break\<close> once nothing is left to take.
\<close>

fun reduceExcess :: "Difficulty list \<Rightarrow> (Difficulty \<Rightarrow> int) \<Rightarrow> int \<Rightarrow> (Difficulty \<Rightarrow> int)" where
  "reduceExcess [] distribution remainingExcess = distribution"
| "reduceExcess (d # ds) distribution remainingExcess =
     (let reduction = min (distribution d) remainingExcess;
          distribution' = distribution (d := distribution d - reduction);
          remainingExcess' = remainingExcess - reduction
      in if remainingExcess' = 0 then distribution'
         else reduceExcess ds distribution' remainingExcess')"

text \<open>
  \<^verbatim>\<open>calculateDistribution\<close>. The weights are naturals, so \<^verbatim>\<open>totalWeight\<close> is 0 only
  when all three are 0; every quotient is then \<^verbatim>\<open>0 / 0\<close>, every entry of the
  distribution is \<^verbatim>\<open>NaN\<close>, both comparisons with \<^verbatim>\<open>totalQuestions\<close> are false and the
  distribution of \<^verbatim>\<open>NaN\<close>s is returned: that result is \<open>None\<close> here.
\<close>

definition availableCounts :: "Question list \<Rightarrow> Difficulty \<Rightarrow> int" where
  "availableCounts availableQuestions d =
     int (length (filter (\<lambda>q. difficulty q = d) availableQuestions))"

definition totalWeight :: "(Difficulty \<Rightarrow> nat) \<Rightarrow> nat" where
  "totalWeight difficulties = difficulties Easy + difficulties Medium + difficulties Hard"

text \<open>
  \<^verbatim>\<open>Math.round((difficulties.Easy / totalWeight) * totalQuestions)\<close>: the quotient is
  rounded to a double, then the product is.
\<close>

definition desired :: "int \<Rightarrow> (Difficulty \<Rightarrow> nat) \<Rightarrow> Difficulty \<Rightarrow> int" where
  "desired totalQuestions difficulties d =
     mathRound (toDouble (toDouble (of_nat (difficulties d) / of_nat (totalWeight difficulties))
       * of_int totalQuestions))"

text \<open>The distribution before the excess is taken away: the minimum of wish and supply.\<close>

definition clamped :: "int \<Rightarrow> (Difficulty \<Rightarrow> nat) \<Rightarrow> Question list \<Rightarrow> Difficulty \<Rightarrow> int" where
  "clamped totalQuestions difficulties availableQuestions d =
     min (desired totalQuestions difficulties d) (availableCounts availableQuestions d)"

definition calculateDistribution ::
  "int \<Rightarrow> (Difficulty \<Rightarrow> nat) \<Rightarrow> Question list \<Rightarrow> (Difficulty \<Rightarrow> int) option" where
  "calculateDistribution totalQuestions difficulties availableQuestions =
     (if totalWeight difficulties = 0 then None
      else
        let distribution = clamped totalQuestions difficulties availableQuestions;
            total = distribution Easy + distribution Medium + distribution Hard
        in if total < totalQuestions then Some distribution
           else if total > totalQuestions
             then Some (reduceExcess [Hard, Medium, Easy] distribution (total - totalQuestions))
             else Some distribution)"

text \<open>
  The state of the loop over \<^verbatim>\<open>topicsWithQuestions\<close> in
  \<^verbatim>\<open>selectQuestionsWithDiversity\<close>. \<^verbatim>\<open>questionsByTopic\<close> is part of it: the loop
  splices the chosen questions out of the topic's array, and a topic that is listed
  twice meets its spliced array again.
\<close>

record SelectState =
  selected :: "Question list"
  questionsByTopic :: "Topic \<Rightarrow> Question list option"
  remainder :: int
  remainingCount :: int
  randoms :: random_source

text \<open>\<^verbatim>\<open>count % n\<close>: the remainder of JavaScript has the sign of the dividend.\<close>

definition jsRemainder :: "int \<Rightarrow> int \<Rightarrow> int" where
  "jsRemainder a b = sgn a * (\<bar>a\<bar> mod \<bar>b\<bar>)"

definition selectFromTopic :: "int \<Rightarrow> Topic \<Rightarrow> SelectState \<Rightarrow> SelectState" where
  "selectFromTopic basePerTopic t st =
     (let topicQuestions = (case questionsByTopic st t of None \<Rightarrow> [] | Some qs \<Rightarrow> qs);
          topicCount0 = min basePerTopic (int (length topicQuestions));
          extra = (remainder st > 0 \<and> int (length topicQuestions) > topicCount0);
          topicCount = (if extra then topicCount0 + 1 else topicCount0);
          (selectedFromTopic, rnd') = getRandomElements (randoms st) topicQuestions topicCount
      in \<lparr> selected = selected st @ selectedFromTopic,
           questionsByTopic = (questionsByTopic st)(t \<mapsto> fold remove1 selectedFromTopic topicQuestions),
           remainder = (if extra then remainder st - 1 else remainder st),
           remainingCount = remainingCount st - topicCount,
           randoms = rnd' \<rparr>)"

text \<open>
  Grouping the questions by topic: \<^verbatim>\<open>questionsByTopic[topic] = []\<close> for every listed
  topic, then every question is pushed on the array of its topic if there is one.
\<close>

definition groupByTopic :: "Question list \<Rightarrow> Topic list \<Rightarrow> (Topic \<Rightarrow> Question list option)" where
  "groupByTopic questions topics =
     fold (\<lambda>q m. case m (topic q) of None \<Rightarrow> m | Some qs \<Rightarrow> m(topic q \<mapsto> qs @ [q]))
       questions
       (fold (\<lambda>t m. m(t \<mapsto> [])) topics Map.empty)"

definition selectQuestionsWithDiversity ::
  "random_source \<Rightarrow> Question list \<Rightarrow> int \<Rightarrow> Topic list \<Rightarrow> Question list \<times> random_source" where
  "selectQuestionsWithDiversity rnd questions cnt topics =
     (if int (length questions) \<le> cnt then (questions, rnd)
      else
        let byTopic = groupByTopic questions topics;
            topicsWithQuestions =
              filter (\<lambda>t. case byTopic t of None \<Rightarrow> False | Some qs \<Rightarrow> length qs > 0) topics
        in if length topicsWithQuestions = 0 then ([], rnd)
           else
             let basePerTopic = cnt div int (length topicsWithQuestions);
                 st = fold (selectFromTopic basePerTopic) topicsWithQuestions
                        \<lparr> selected = [], questionsByTopic = byTopic,
                          remainder = jsRemainder cnt (int (length topicsWithQuestions)),
                          remainingCount = cnt, randoms = rnd \<rparr>
             in if remainingCount st > 0
                then
                  let remaining = filter (\<lambda>q. q \<notin> set (selected st)) questions;
                      (additional, rnd') = getRandomElements (randoms st) remaining (remainingCount st)
                  in (selected st @ additional, rnd')
                else (selected st, randoms st))"

text \<open>One round of the loop over \<^verbatim>\<open>['Easy', 'Medium', 'Hard']\<close> in \<^verbatim>\<open>generateExam\<close>.\<close>

definition selectForDifficulty ::
  "Question list \<Rightarrow> (Difficulty \<Rightarrow> int) \<Rightarrow> Topic list \<Rightarrow> Difficulty \<Rightarrow>
   Question list \<times> random_source \<Rightarrow> Question list \<times> random_source" where
  "selectForDifficulty availableQuestions distribution topics d acc =
     (let (selectedQuestions, rnd) = acc;
          cnt = distribution d
      in if cnt \<le> 0 then acc
         else
           let questionsOfDifficulty = filter (\<lambda>q. difficulty q = d) availableQuestions;
               toSelect = min cnt (int (length questionsOfDifficulty));
               (picked, rnd') = selectQuestionsWithDiversity rnd questionsOfDifficulty toSelect topics
           in (selectedQuestions @ picked, rnd'))"

text \<open>
  \<^verbatim>\<open>ExamConfig\<close>: the three weights are the values of sliders that start at 0 and are
  natural numbers; \<^verbatim>\<open>numQuestions\<close> is an integer. \<^verbatim>\<open>timestamp\<close> is the clock reading
  \<^verbatim>\<open>Date.now()\<close>, an input of the model.
\<close>

record ExamConfig =
  numQuestions :: int
  difficulties :: "Difficulty \<Rightarrow> nat"
  topics :: "Topic list"

record ExamResult =
  questions :: "Question list"
  config :: ExamConfig
  timestamp :: nat

text \<open>
  \<^verbatim>\<open>generateExam\<close>, on the store \<open>s\<close> that the selector reads. With a distribution of
  \<^verbatim>\<open>NaN\<close>s every comparison in the three rounds is false: \<^verbatim>\<open>count <= 0\<close> does not
  skip the round, \<^verbatim>\<open>questions.length <= count\<close> does not return the questions, no
  topic gets a count, \<^verbatim>\<open>getRandomElements\<close> does not enter its loop and
  \<^verbatim>\<open>remainingCount > 0\<close> does not start the second pass. The exam is empty and no
  random number is drawn.
\<close>

definition generateExam ::
  "QuestionStore \<Rightarrow> nat \<Rightarrow> random_source \<Rightarrow> ExamConfig \<Rightarrow> ExamResult \<times> random_source" where
  "generateExam s now rnd cfg =
     (let availableQuestions = getAvailableQuestions s (topics cfg)
      in case calculateDistribution (numQuestions cfg) (difficulties cfg) availableQuestions of
           None \<Rightarrow> (\<lparr> questions = [], config = cfg, timestamp = now \<rparr>, rnd)
         | Some distribution \<Rightarrow>
             let (selectedQuestions, rnd') =
                   fold (selectForDifficulty availableQuestions distribution (topics cfg))
                     [Easy, Medium, Hard] ([], rnd)
             in (\<lparr> questions = selectedQuestions, config = cfg, timestamp = now \<rparr>, rnd'))"

section \<open>QuestionGraphManager (questionGraph.ts)\<close>

text \<open>
  The two \<^verbatim>\<open>Map\<close>s of the graph are association lists in insertion order, which is the
  order of \<^verbatim>\<open>Map.forEach\<close>: \<^verbatim>\<open>set\<close> replaces the value of a key in place or
  appends a new key, \<^verbatim>\<open>delete\<close> takes the key out.
\<close>

record QuestionGraph =
  nodes :: "(string \<times> Question) list"
  edges :: "(string \<times> string list) list"

definition newQuestionGraph :: QuestionGraph where
  "newQuestionGraph = \<lparr> nodes = [], edges = [] \<rparr>"

definition hasNode :: "QuestionGraph \<Rightarrow> string \<Rightarrow> bool" where
  "hasNode g i = (map_of (nodes g) i \<noteq> None)"

text \<open>\<^verbatim>\<open>this.graph.edges.get(id) || []\<close>\<close>

definition edgesOf :: "(string \<times> string list) list \<Rightarrow> string \<Rightarrow> string list" where
  "edgesOf es i = (case map_of es i of None \<Rightarrow> [] | Some ns \<Rightarrow> ns)"

text \<open>One direction of an edge: pushed and stored unless the list already has it.\<close>

definition addEdge :: "string \<Rightarrow> string \<Rightarrow> (string \<times> string list) list \<Rightarrow> (string \<times> string list) list" where
  "addEdge a b es =
     (let currentEdges = edgesOf es a
      in if b \<in> set currentEdges then es else AList.update a (currentEdges @ [b]) es)"

definition findAndCreateRelationships ::
  "QuestionGraph \<Rightarrow> random_source \<Rightarrow> Question \<Rightarrow> QuestionGraph \<times> random_source" where
  "findAndCreateRelationships g rnd question =
     (let sameTopicQuestions =
            map fst (filter (\<lambda>(i, q). i \<noteq> qid question \<and> topic q = topic question) (nodes g));
          relatedQuestionsCount = min 3 (int (length sameTopicQuestions));
          (selectedRelatedQuestions, rnd') =
            getRandomElements rnd sameTopicQuestions relatedQuestionsCount
      in (g \<lparr> edges :=
               fold (\<lambda>relatedId es. addEdge relatedId (qid question) (addEdge (qid question) relatedId es))
                 selectedRelatedQuestions (edges g) \<rparr>,
          rnd'))"

definition addQuestion_graph ::
  "QuestionGraph \<Rightarrow> random_source \<Rightarrow> Question \<Rightarrow> bool \<times> QuestionGraph \<times> random_source" where
  "addQuestion_graph g rnd question =
     (if hasNode g (qid question) then (False, g, rnd)
      else
        let g' = \<lparr> nodes = AList.update (qid question) question (nodes g),
                   edges = AList.update (qid question) [] (edges g) \<rparr>
        in (True, findAndCreateRelationships g' rnd question))"

definition removeQuestion_graph :: "QuestionGraph \<Rightarrow> string \<Rightarrow> bool \<times> QuestionGraph" where
  "removeQuestion_graph g i =
     (if \<not> hasNode g i then (False, g)
      else (True,
            \<lparr> nodes = AList.delete i (nodes g),
              edges = map (\<lambda>(nodeId, connectedIds). (nodeId, filter (\<lambda>connectedId. connectedId \<noteq> i) connectedIds))
                        (AList.delete i (edges g)) \<rparr>))"

text \<open>
  The loop over the neighbours of a dequeued node: an unvisited neighbour is marked and
  put at the end of the queue, one level deeper.
\<close>

fun enqueueNeighbors ::
  "string list \<Rightarrow> nat \<Rightarrow> string set \<times> (string \<times> nat) list \<Rightarrow> string set \<times> (string \<times> nat) list" where
  "enqueueNeighbors [] depth (visited, queue) = (visited, queue)"
| "enqueueNeighbors (neighborId # rest) depth (visited, queue) =
     (if neighborId \<notin> visited
      then enqueueNeighbors rest depth (insert neighborId visited, queue @ [(neighborId, depth + 1)])
      else enqueueNeighbors rest depth (visited, queue))"

text \<open>Every id that some adjacency list of the graph mentions.\<close>

definition allNeighborIds :: "QuestionGraph \<Rightarrow> string set" where
  "allNeighborIds g = (\<Union>(n, ns) \<in> set (edges g). set ns)"

text \<open>
  The \<^verbatim>\<open>while (queue.length > 0)\<close> loop of \<^verbatim>\<open>getRelatedQuestions\<close>. It ends because
  every id is put in the queue at most once and only ids of the adjacency lists get there.
\<close>

function bfs ::
  "QuestionGraph \<Rightarrow> int \<Rightarrow> string set \<Rightarrow> (string \<times> nat) list \<Rightarrow> Question list \<Rightarrow> Question list" where
  "bfs g maxDepth visited [] result = result"
| "bfs g maxDepth visited ((i, depth) # queue) result =
     (let result' = (if depth > 0
                     then (case map_of (nodes g) i of None \<Rightarrow> result | Some question \<Rightarrow> result @ [question])
                     else result)
      in if int depth \<ge> maxDepth then bfs g maxDepth visited queue result'
         else
           let (visited', queue') = enqueueNeighbors (edgesOf (edges g) i) depth (visited, queue)
           in bfs g maxDepth visited' queue' result')"
  by pat_completeness auto


lemma enqueueNeighbors_measure:
  "finite U \<Longrightarrow> set ns \<subseteq> U \<Longrightarrow>
   enqueueNeighbors ns depth (visited, queue) = (visited', queue') \<Longrightarrow>
   card (U - visited') + length queue' = card (U - visited) + length queue"
proof (induction ns arbitrary: visited queue)
  case Nil
  then show ?case by simp
next
  case (Cons n ns)
  show ?case
  proof (cases "n \<in> visited")
    case True
    with Cons show ?thesis by simp
  next
    case False
    with Cons.prems
    have e: "enqueueNeighbors ns depth (insert n visited, queue @ [(n, depth + 1)]) = (visited', queue')"
      by simp
    from Cons.prems have "set ns \<subseteq> U" "n \<in> U" by auto
    from Cons.IH[OF Cons.prems(1) this(1) e]
    have "card (U - visited') + length queue' = card (U - insert n visited) + length queue + 1"
      by simp
    moreover have "n \<in> U - visited" using False \<open>n \<in> U\<close> by simp
    then have "card (U - visited) = Suc (card (U - visited - {n}))"
      using Cons.prems(1) by (intro card.remove) simp_all
    moreover have "U - visited - {n} = U - insert n visited" by auto
    ultimately show ?thesis by simp
  qed
qed

lemma edgesOf_allNeighborIds: "set (edgesOf (edges g) i) \<subseteq> allNeighborIds g"
proof (cases "map_of (edges g) i")
  case None
  then show ?thesis by (simp add: edgesOf_def)
next
  case (Some ns)
  then have "(i, ns) \<in> set (edges g)" by (rule map_of_SomeD)
  with Some show ?thesis by (auto simp: edgesOf_def allNeighborIds_def)
qed

termination bfs
proof (relation "measure (\<lambda>(g, maxDepth, visited, queue, result).
         card (allNeighborIds g - visited) + length queue)", goal_cases)
  case 1
  show ?case by simp
next
  case (2 g maxDepth visited i depth queue result x)
  show ?case by simp
next
  case (3 g maxDepth visited i depth queue result x xa x2 y)
  have "finite (allNeighborIds g)" by (auto simp: allNeighborIds_def)
  from enqueueNeighbors_measure[OF this edgesOf_allNeighborIds, of i depth visited queue x2 y] 3
  have "card (allNeighborIds g - x2) + length y = card (allNeighborIds g - visited) + length queue"
    by simp
  then show ?case by simp
qed

definition getRelatedQuestions :: "QuestionGraph \<Rightarrow> string \<Rightarrow> int \<Rightarrow> Question list" where
  "getRelatedQuestions g questionId maxDepth =
     (if \<not> hasNode g questionId then []
      else bfs g maxDepth {questionId} [(questionId, 0)] [])"

text \<open>The states of a graph manager: the empty graph, changed by the two mutators.\<close>

inductive reachable_graph :: "QuestionGraph \<Rightarrow> bool" where
  reachable_graph_new: "reachable_graph newQuestionGraph"
| reachable_graph_add: "reachable_graph g \<Longrightarrow> reachable_graph (fst (snd (addQuestion_graph g rnd q)))"
| reachable_graph_remove: "reachable_graph g \<Longrightarrow> reachable_graph (snd (removeQuestion_graph g i))"


section \<open>The selector on a heap of arrays\<close>

text \<open>
  The functions above take arrays as values. In the source an array is an object: two
  variables can hold the same array, and \<^verbatim>\<open>push\<close> and \<^verbatim>\<open>splice\<close> change it for both.
  Here the arrays of questions live in a heap, a map from references to contents with
  the next free reference, and the selector is written once more over this heap, statement
  by statement. The other objects that the selector touches (the topic map and the id set
  of the store, the configuration, the questions, arrays of topics) are only read by it:
  no statement of the selector assigns to one of them or calls a mutator of the store.
  They stay values.
\<close>

type_synonym ref = nat

record heap =
  arrays :: "ref \<Rightarrow> Question list"
  nextRef :: ref

text \<open>
  An array literal, a spread copy \<^verbatim>\<open>[...a]\<close> or the result of \<^verbatim>\<open>filter\<close>: a new array.
\<close>

definition newArray :: "Question list \<Rightarrow> heap \<Rightarrow> ref \<times> heap" where
  "newArray xs h = (nextRef h, \<lparr> arrays = (arrays h)(nextRef h := xs), nextRef = Suc (nextRef h) \<rparr>)"

text \<open>\<^verbatim>\<open>a.push(...xs)\<close> and \<^verbatim>\<open>a.splice(i, 1)\<close> write to the array \<open>a\<close>.\<close>

definition push :: "ref \<Rightarrow> Question list \<Rightarrow> heap \<Rightarrow> heap" where
  "push r xs h = h \<lparr> arrays := (arrays h)(r := arrays h r @ xs) \<rparr>"

definition splice :: "ref \<Rightarrow> nat \<Rightarrow> heap \<Rightarrow> heap" where
  "splice r i h = h \<lparr> arrays := (arrays h)(r := take i (arrays h r) @ drop (Suc i) (arrays h r)) \<rparr>"

text \<open>\<^verbatim>\<open>index = a.indexOf(q); if (index !== -1) a.splice(index, 1)\<close>\<close>

definition spliceFirst :: "ref \<Rightarrow> Question \<Rightarrow> heap \<Rightarrow> heap" where
  "spliceFirst r q h = h \<lparr> arrays := (arrays h)(r := remove1 q (arrays h r)) \<rparr>"

text \<open>
  The store as an object: its buckets are references to arrays. \<open>storeOf\<close> reads the
  store of the first part off the heap.
\<close>

record StoreObject =
  bucketRefs :: "(Topic \<times> (Difficulty \<Rightarrow> ref)) list"
  idSetOf :: "string set"

definition storeOf :: "StoreObject \<Rightarrow> heap \<Rightarrow> QuestionStore" where
  "storeOf so h =
     \<lparr> store = map (\<lambda>(t, b). (t, \<lambda>d. arrays h (b d))) (bucketRefs so), idSet = idSetOf so \<rparr>"

text \<open>The two queries of the store that the selector calls; each returns a new array.\<close>

definition getAllQuestions_heap :: "StoreObject \<Rightarrow> heap \<Rightarrow> ref \<times> heap" where
  "getAllQuestions_heap so h =
     (let (result, h1) = newArray [] h
      in (result,
          fold (\<lambda>(t, b) h. push result (arrays h (b Easy) @ arrays h (b Medium) @ arrays h (b Hard)) h)
            (bucketRefs so) h1))"

definition getQuestionsByTopic_heap :: "StoreObject \<Rightarrow> Topic \<Rightarrow> heap \<Rightarrow> ref \<times> heap" where
  "getQuestionsByTopic_heap so t h =
     (case map_of (bucketRefs so) t of
        None \<Rightarrow> newArray [] h
      | Some b \<Rightarrow> newArray (arrays h (b Easy) @ arrays h (b Medium) @ arrays h (b Hard)) h)"

definition getAvailableQuestions_heap :: "StoreObject \<Rightarrow> Topic list \<Rightarrow> heap \<Rightarrow> ref \<times> heap" where
  "getAvailableQuestions_heap so tps h =
     (if length tps = 0 then getAllQuestions_heap so h
      else
        let (questionsA, h1) = newArray [] h
        in (questionsA,
            fold (\<lambda>t h. let (byTopic, h') = getQuestionsByTopic_heap so t h
                        in push questionsA (arrays h' byTopic) h')
              tps h1))"

text \<open>\<^verbatim>\<open>getRandomElements\<close>: a copy of the array and a result array are made and written to.\<close>

fun pickRandom_heap :: "nat \<Rightarrow> random_source \<Rightarrow> ref \<Rightarrow> ref \<Rightarrow> heap \<Rightarrow> random_source \<times> heap" where
  "pickRandom_heap 0 rnd copy result h = (rnd, h)"
| "pickRandom_heap (Suc k) rnd copy result h =
     (if arrays h copy = [] then (rnd, h)
      else
        let (randomIndex, rnd') = randomIndex rnd (length (arrays h copy));
            h1 = push result [arrays h copy ! randomIndex] h;
            h2 = splice copy randomIndex h1
        in pickRandom_heap k rnd' copy result h2)"

definition getRandomElements_heap ::
  "random_source \<Rightarrow> ref \<Rightarrow> int \<Rightarrow> heap \<Rightarrow> ref \<times> random_source \<times> heap" where
  "getRandomElements_heap rnd array cnt h =
     (let (copy, h1) = newArray (arrays h array) h;
          (result, h2) = newArray [] h1;
          (rnd', h3) = pickRandom_heap (nat cnt) rnd copy result h2
      in (result, rnd', h3))"

text \<open>
  Grouping by topic: a new array per listed topic, then the pushes. The questions are
  read once, before the pushes: the arrays pushed to are new, none of them is the array
  that \<^verbatim>\<open>forEach\<close> runs over.
\<close>

definition groupByTopic_heap :: "ref \<Rightarrow> Topic list \<Rightarrow> heap \<Rightarrow> (Topic \<Rightarrow> ref option) \<times> heap" where
  "groupByTopic_heap questionsA tps h =
     (let (byTopic, h1) =
            fold (\<lambda>t (m, h). let (r, h') = newArray [] h in (m(t \<mapsto> r), h')) tps (Map.empty, h)
      in (byTopic,
          fold (\<lambda>q h. case byTopic (topic q) of None \<Rightarrow> h | Some r \<Rightarrow> push r [q] h)
            (arrays h1 questionsA) h1))"

text \<open>
  The loop over the topics. The splices go to \<^verbatim>\<open>topicQuestions\<close>, which is the array
  of the topic in \<^verbatim>\<open>questionsByTopic\<close>. A topic without an array does not occur (the
  listed topics all have one; the source would throw on it).
\<close>

record HeapSelectState =
  selectedRef :: ref
  refsByTopic :: "Topic \<Rightarrow> ref option"
  remainderH :: int
  remainingCountH :: int
  randomsH :: random_source
  heapH :: heap

definition selectFromTopic_heap :: "int \<Rightarrow> Topic \<Rightarrow> HeapSelectState \<Rightarrow> HeapSelectState" where
  "selectFromTopic_heap basePerTopic t st =
     (case refsByTopic st t of
        None \<Rightarrow> st
      | Some topicQuestions \<Rightarrow>
          let h = heapH st;
              topicCount0 = min basePerTopic (int (length (arrays h topicQuestions)));
              extra = (remainderH st > 0 \<and> int (length (arrays h topicQuestions)) > topicCount0);
              topicCount = (if extra then topicCount0 + 1 else topicCount0);
              (selectedFromTopic, rnd', h1) = getRandomElements_heap (randomsH st) topicQuestions topicCount h;
              h2 = push (selectedRef st) (arrays h1 selectedFromTopic) h1;
              h3 = fold (spliceFirst topicQuestions) (arrays h2 selectedFromTopic) h2
          in st \<lparr> remainderH := (if extra then remainderH st - 1 else remainderH st),
                  remainingCountH := remainingCountH st - topicCount,
                  randomsH := rnd',
                  heapH := h3 \<rparr>)"

definition selectQuestionsWithDiversity_heap ::
  "random_source \<Rightarrow> ref \<Rightarrow> int \<Rightarrow> Topic list \<Rightarrow> heap \<Rightarrow> ref \<times> random_source \<times> heap" where
  "selectQuestionsWithDiversity_heap rnd questionsA cnt tps h =
     (if int (length (arrays h questionsA)) \<le> cnt
      then (let (r, h') = newArray (arrays h questionsA) h in (r, rnd, h'))
      else
        let (byTopic, h1) = groupByTopic_heap questionsA tps h;
            (selectedA, h2) = newArray [] h1;
            topicsWithQuestions =
              filter (\<lambda>t. case byTopic t of None \<Rightarrow> False | Some r \<Rightarrow> length (arrays h2 r) > 0) tps
        in if length topicsWithQuestions = 0
           then (let (r, h') = newArray [] h2 in (r, rnd, h'))
           else
             let basePerTopic = cnt div int (length topicsWithQuestions);
                 st = fold (selectFromTopic_heap basePerTopic) topicsWithQuestions
                        \<lparr> selectedRef = selectedA, refsByTopic = byTopic,
                          remainderH = jsRemainder cnt (int (length topicsWithQuestions)),
                          remainingCountH = cnt, randomsH = rnd, heapH = h2 \<rparr>
             in if remainingCountH st > 0
                then
                  let h3 = heapH st;
                      (remaining, h4) =
                        newArray (filter (\<lambda>q. q \<notin> set (arrays h3 selectedA)) (arrays h3 questionsA)) h3;
                      (additional, rnd', h5) =
                        getRandomElements_heap (randomsH st) remaining (remainingCountH st) h4
                  in (selectedA, rnd', push selectedA (arrays h5 additional) h5)
                else (selectedA, randomsH st, heapH st))"

text \<open>
  \<^verbatim>\<open>generateExam\<close>. The three arrays that \<^verbatim>\<open>calculateDistribution\<close> filters out only to
  take their length are not allocated here, and with a distribution of \<^verbatim>\<open>NaN\<close>s the three
  rounds, which select nothing, are left out.
\<close>

definition selectForDifficulty_heap ::
  "ref \<Rightarrow> (Difficulty \<Rightarrow> int) \<Rightarrow> Topic list \<Rightarrow> ref \<Rightarrow> Difficulty \<Rightarrow>
   random_source \<times> heap \<Rightarrow> random_source \<times> heap" where
  "selectForDifficulty_heap availableQuestions distribution tps selectedQuestions d acc =
     (let (rnd, h) = acc;
          cnt = distribution d
      in if cnt \<le> 0 then acc
         else
           let (questionsOfDifficulty, h1) =
                 newArray (filter (\<lambda>q. difficulty q = d) (arrays h availableQuestions)) h;
               toSelect = min cnt (int (length (arrays h1 questionsOfDifficulty)));
               (picked, rnd', h2) =
                 selectQuestionsWithDiversity_heap rnd questionsOfDifficulty toSelect tps h1
           in (rnd', push selectedQuestions (arrays h2 picked) h2))"

definition generateExam_heap ::
  "StoreObject \<Rightarrow> random_source \<Rightarrow> ExamConfig \<Rightarrow> heap \<Rightarrow> ref \<times> random_source \<times> heap" where
  "generateExam_heap so rnd cfg h =
     (let (selectedQuestions, h1) = newArray [] h;
          (availableQuestions, h2) = getAvailableQuestions_heap so (topics cfg) h1
      in case calculateDistribution (numQuestions cfg) (difficulties cfg) (arrays h2 availableQuestions) of
           None \<Rightarrow> (selectedQuestions, rnd, h2)
         | Some distribution \<Rightarrow>
             let (rnd', h3) =
                   fold (selectForDifficulty_heap availableQuestions distribution (topics cfg) selectedQuestions)
                     [Easy, Medium, Hard] (rnd, h2)
             in (selectedQuestions, rnd', h3))"

text \<open>
  \<open>frame n h h'\<close>: from \<open>h\<close> to \<open>h'\<close> no reference is given back and no array below \<open>n\<close>
  has changed.
\<close>

definition frame :: "ref \<Rightarrow> heap \<Rightarrow> heap \<Rightarrow> bool" where
  "frame n h h' \<longleftrightarrow> nextRef h \<le> nextRef h' \<and> (\<forall>a < n. arrays h' a = arrays h a)"

text \<open>The references of the loop state are at or above \<open>n\<close>.\<close>

definition local_refs :: "ref \<Rightarrow> HeapSelectState \<Rightarrow> bool" where
  "local_refs n st \<longleftrightarrow>
     n \<le> nextRef (heapH st) \<and> n \<le> selectedRef st \<and>
     (\<forall>t r. refsByTopic st t = Some r \<longrightarrow> n \<le> r)"

text \<open>Every bucket of the store is an allocated array.\<close>

definition store_allocated :: "StoreObject \<Rightarrow> heap \<Rightarrow> bool" where
  "store_allocated so h \<longleftrightarrow> (\<forall>(t, b) \<in> set (bucketRefs so). \<forall>d. b d < nextRef h)"

text \<open>
  The constructor and \<^verbatim>\<open>addQuestion\<close> on the heap: three new arrays per topic, and a push
  on the bucket of the question's topic and difficulty.
\<close>

definition emptyHeap :: heap where
  "emptyHeap = \<lparr> arrays = (\<lambda>r. []), nextRef = 0 \<rparr>"

definition newBuckets :: "heap \<Rightarrow> (Difficulty \<Rightarrow> ref) \<times> heap" where
  "newBuckets h =
     (let (e, h1) = newArray [] h;
          (m, h2) = newArray [] h1;
          (hd, h3) = newArray [] h2
      in (\<lambda>d. case d of Easy \<Rightarrow> e | Medium \<Rightarrow> m | Hard \<Rightarrow> hd, h3))"

definition newQuestionStore_heap :: "heap \<Rightarrow> StoreObject \<times> heap" where
  "newQuestionStore_heap h =
     (let (bs, h') = fold (\<lambda>t (bs, h). let (b, h') = newBuckets h in (bs @ [(t, b)], h')) allTopics ([], h)
      in (\<lparr> bucketRefs = bs, idSetOf = {} \<rparr>, h'))"

definition addQuestion_heap :: "StoreObject \<Rightarrow> Question \<Rightarrow> heap \<Rightarrow> bool \<times> StoreObject \<times> heap" where
  "addQuestion_heap so q h =
     (if qid q \<in> idSetOf so then (False, so, h)
      else
        let (b, h1) = (case map_of (bucketRefs so) (topic q) of
                         None \<Rightarrow> newBuckets h
                       | Some b \<Rightarrow> (b, h))
        in (True,
            \<lparr> bucketRefs = AList.update (topic q) b (bucketRefs so),
              idSetOf = insert (qid q) (idSetOf so) \<rparr>,
            push (b (difficulty q)) [q] h1))"

text \<open>The sample store, built on the empty heap as the module builds it.\<close>

definition sampleHeapStore :: "StoreObject \<times> heap" where
  "sampleHeapStore =
     fold (\<lambda>q (so, h). snd (addQuestion_heap so q h)) sampleQuestions (newQuestionStore_heap emptyHeap)"

text \<open>
  What the store keeps true: its topics are distinct keys, every question is filed under
  its own topic and difficulty, \<^verbatim>\<open>idSet\<close> holds exactly the ids of the stored questions,
  and no id is stored twice.
\<close>

definition store_inv :: "QuestionStore \<Rightarrow> bool" where
  "store_inv s \<longleftrightarrow>
     distinct (map fst (store s)) \<and>
     (\<forall>(t, b) \<in> set (store s). \<forall>d. \<forall>q \<in> set (b d). topic q = t \<and> difficulty q = d) \<and>
     idSet s = qid ` set (getAllQuestions s) \<and>
     distinct (map qid (getAllQuestions s))"

text \<open>The configuration of the scenario: five questions, equal weights, no topic chosen.\<close>

definition scenarioConfig :: ExamConfig where
  "scenarioConfig = \<lparr> numQuestions = 5, difficulties = (\<lambda>d. 1), topics = [] \<rparr>"

text \<open>A configuration with three topics chosen and only easy questions wanted.\<close>

definition topicsConfig :: ExamConfig where
  "topicsConfig = \<lparr> numQuestions = 2, difficulties = (\<lambda>d. if d = Easy then 1 else 0),
      topics = [Searching, Arrays, Trees] \<rparr>"

text \<open>
  What the loop over the topics keeps true, for the size of the selection: with \<open>n\<close>
  topics still to come, the counts left cover the base share of each and the remainder.
\<close>

definition size_inv :: "int \<Rightarrow> int \<Rightarrow> nat \<Rightarrow> SelectState \<Rightarrow> bool" where
  "size_inv cnt base n st \<longleftrightarrow>
     0 \<le> remainder st \<and>
     int (length (selected st)) + remainingCount st \<le> cnt \<and>
     base * int n + remainder st \<le> remainingCount st"

text \<open>And for its content: everything selected or grouped is one of the questions given.\<close>

definition sub_inv :: "Question list \<Rightarrow> SelectState \<Rightarrow> bool" where
  "sub_inv qs st \<longleftrightarrow>
     set (selected st) \<subseteq> set qs \<and>
     (\<forall>t xs. questionsByTopic st t = Some xs \<longrightarrow> set xs \<subseteq> set qs)"


text \<open>
  What the graph keeps true: an id that is in the adjacency list of another has that
  other in its own list, and every id in an adjacency list is a node.
\<close>

definition graph_inv :: "QuestionGraph \<Rightarrow> bool" where
  "graph_inv g \<longleftrightarrow>
     (\<forall>a b. b \<in> set (edgesOf (edges g) a) \<longrightarrow> a \<in> set (edgesOf (edges g) b)) \<and>
     (\<forall>a b. b \<in> set (edgesOf (edges g) a) \<longrightarrow> hasNode g b)"

text \<open>The same for an edge map alone, with the set of nodes given.\<close>

definition edges_ok :: "string set \<Rightarrow> (string \<times> string list) list \<Rightarrow> bool" where
  "edges_ok N es \<longleftrightarrow>
     (\<forall>a b. b \<in> set (edgesOf es a) \<longrightarrow> a \<in> set (edgesOf es b)) \<and>
     (\<forall>a b. b \<in> set (edgesOf es a) \<longrightarrow> b \<in> N)"

text \<open>
  The ids that the loop over the neighbours puts in the queue: those not visited
  before, each at its first occurrence.
\<close>

fun unvisited :: "string set \<Rightarrow> string list \<Rightarrow> string list" where
  "unvisited visited [] = []"
| "unvisited visited (n # ns) =
     (if n \<in> visited then unvisited visited ns else n # unvisited (insert n visited) ns)"

text \<open>A graph with an edge: the first sample question and a second question on its topic.\<close>

definition q11 :: Question where
  "q11 = q1 \<lparr> qid := ''11'' \<rparr>"

definition relatedGraph :: QuestionGraph where
  "relatedGraph =
     fst (snd (addQuestion_graph (fst (snd (addQuestion_graph newQuestionGraph [] q1))) [] q11))"

section \<open>The store: its invariant\<close>

lemma mset_push:
  "mset ((b(d := b d @ [q])) Easy @ (b(d := b d @ [q])) Medium @ (b(d := b d @ [q])) Hard)
   = add_mset q (mset (b Easy @ b Medium @ b Hard))"
  by (cases d) simp_all

lemma mset_concat_update_Some:
  "map_of al k = Some b \<Longrightarrow> distinct (map fst al) \<Longrightarrow>
   mset (f (k, b')) = add_mset q (mset (f (k, b))) \<Longrightarrow>
   mset (concat (map f (AList.update k b' al))) = add_mset q (mset (concat (map f al)))"
proof (induction al)
  case Nil
  then show ?case by simp
next
  case (Cons p al)
  obtain t c where p: "p = (t, c)" by (cases p)
  show ?case
  proof (cases "t = k")
    case True
    with Cons.prems p have "c = b" by simp
    with True p Cons.prems(3) show ?thesis by simp
  next
    case False
    with Cons p show ?thesis by simp
  qed
qed

lemma mset_concat_update_None:
  "map_of al k = None \<Longrightarrow> mset (f (k, b')) = {#q#} \<Longrightarrow>
   mset (concat (map f (AList.update k b' al))) = add_mset q (mset (concat (map f al)))"
proof (induction al)
  case Nil
  then show ?case by simp
next
  case (Cons p al)
  then show ?case by (cases p) (auto split: if_splits)
qed

lemma mset_getAll_add:
  assumes "distinct (map fst (store s))" "qid q \<notin> idSet s"
  shows "mset (getAllQuestions (snd (addQuestion s q))) = add_mset q (mset (getAllQuestions s))"
proof (cases "map_of (store s) (topic q)")
  case None
  have "mset ((emptyBuckets(difficulty q := emptyBuckets (difficulty q) @ [q])) Easy @
     (emptyBuckets(difficulty q := emptyBuckets (difficulty q) @ [q])) Medium @
     (emptyBuckets(difficulty q := emptyBuckets (difficulty q) @ [q])) Hard) = {#q#}"
    unfolding mset_push by (simp add: emptyBuckets_def)
  with None assms show ?thesis
    by (simp add: addQuestion_def getAllQuestions_def Let_def mset_concat_update_None
        del: fun_upd_apply mset_append)
next
  case (Some b)
  then show ?thesis using assms mset_push[of b "difficulty q" q]
    by (simp add: addQuestion_def getAllQuestions_def Let_def mset_concat_update_Some
        del: fun_upd_apply mset_append)
qed

lemma filed_update:
  assumes "\<forall>(t, b) \<in> set al. \<forall>d. \<forall>q \<in> set (b d). topic q = t \<and> difficulty q = d"
    and "\<forall>d. \<forall>q \<in> set (b' d). topic q = k \<and> difficulty q = d"
  shows "\<forall>(t, b) \<in> set (AList.update k b' al). \<forall>d. \<forall>q \<in> set (b d). topic q = t \<and> difficulty q = d"
  using assms by (induction al) (auto split: if_splits)

lemma store_inv_new: "store_inv newQuestionStore"
  by (simp add: store_inv_def newQuestionStore_def allTopics_def emptyBuckets_def getAllQuestions_def)

lemma store_inv_add:
  assumes "store_inv s"
  shows "store_inv (snd (addQuestion s q))"
proof (cases "qid q \<in> idSet s")
  case True
  with assms show ?thesis by (simp add: addQuestion_def)
next
  case False
  let ?s' = "snd (addQuestion s q)"
  from assms have dk: "distinct (map fst (store s))"
    and filed: "\<forall>(t, b) \<in> set (store s). \<forall>d. \<forall>q \<in> set (b d). topic q = t \<and> difficulty q = d"
    and ids: "idSet s = qid ` set (getAllQuestions s)"
    and dist: "distinct (map qid (getAllQuestions s))"
    by (simp_all add: store_inv_def)
  have m: "mset (getAllQuestions ?s') = add_mset q (mset (getAllQuestions s))"
    using dk False by (rule mset_getAll_add)
  have st: "set (getAllQuestions ?s') = insert q (set (getAllQuestions s))"
    using m by (metis set_mset_add_mset_insert set_mset_mset)
  have "mset (map qid (getAllQuestions ?s')) = mset (map qid (q # getAllQuestions s))"
    using m by (metis mset.simps(2) mset_map)
  then have "distinct (map qid (getAllQuestions ?s')) \<longleftrightarrow> distinct (map qid (q # getAllQuestions s))"
    by (rule mset_eq_imp_distinct_iff)
  with False ids dist have d': "distinct (map qid (getAllQuestions ?s'))" by simp
  have i': "idSet ?s' = qid ` set (getAllQuestions ?s')"
    using False ids st by (simp add: addQuestion_def Let_def)
  have k': "distinct (map fst (store ?s'))"
    using False dk by (simp add: addQuestion_def Let_def distinct_update)
  have f': "\<forall>(t, b) \<in> set (store ?s'). \<forall>d. \<forall>q \<in> set (b d). topic q = t \<and> difficulty q = d"
  proof -
    define b where "b = (case map_of (store s) (topic q) of None \<Rightarrow> emptyBuckets | Some b \<Rightarrow> b)"
    have "\<forall>d. \<forall>x \<in> set (b d). topic x = topic q \<and> difficulty x = d"
    proof (cases "map_of (store s) (topic q)")
      case None
      then show ?thesis by (simp add: b_def emptyBuckets_def)
    next
      case (Some c)
      then have "(topic q, c) \<in> set (store s)" by (rule map_of_SomeD)
      with filed Some show ?thesis by (auto simp: b_def)
    qed
    then have "\<forall>d. \<forall>x \<in> set ((b(difficulty q := b (difficulty q) @ [q])) d). topic x = topic q \<and> difficulty x = d"
      by auto
    from filed_update[OF filed this] False show ?thesis
      by (simp add: addQuestion_def Let_def b_def del: fun_upd_apply)
  qed
  from k' f' i' d' show ?thesis by (simp add: store_inv_def)
qed

lemma spliceById_filter:
  "distinct (map qid qs) \<Longrightarrow> spliceById i qs = filter (\<lambda>q. qid q \<noteq> i) qs"
proof (induction qs)
  case Nil
  then show ?case by simp
next
  case (Cons q qs)
  show ?case
  proof (cases "qid q = i")
    case True
    with Cons.prems have "i \<notin> set (map qid qs)" by auto
    then have "\<forall>x \<in> set qs. qid x \<noteq> i" by (metis imageI set_map)
    then have "filter (\<lambda>q. qid q \<noteq> i) qs = qs" by (simp add: filter_id_conv)
    with True show ?thesis by simp
  next
    case False
    with Cons show ?thesis by simp
  qed
qed

lemma distinct_concat_part:
  "distinct (map g (concat xss)) \<Longrightarrow> xs \<in> set xss \<Longrightarrow> distinct (map g xs)"
  by (induction xss) auto

lemma concat_map_filter_buckets:
  assumes "distinct (map qid (concat (map (\<lambda>(t, b). b Easy @ b Medium @ b Hard) al)))"
  shows "concat (map (\<lambda>(t, b). b Easy @ b Medium @ b Hard) (map (\<lambda>(t, b). (t, \<lambda>d. spliceById i (b d))) al))
    = filter (\<lambda>q. qid q \<noteq> i) (concat (map (\<lambda>(t, b). b Easy @ b Medium @ b Hard) al))"
  using assms
proof (induction al)
  case Nil
  then show ?case by simp
next
  case (Cons p al)
  obtain t b where p: "p = (t, b)" by (cases p)
  from Cons.prems p have "distinct (map qid (b Easy))" "distinct (map qid (b Medium))" "distinct (map qid (b Hard))"
    and "distinct (map qid (concat (map (\<lambda>(t, b). b Easy @ b Medium @ b Hard) al)))"
    by auto
  with Cons.IH p show ?case by (simp add: spliceById_filter)
qed

lemma store_inv_remove:
  assumes "store_inv s"
  shows "store_inv (snd (removeQuestion s i))"
proof (cases "i \<in> idSet s")
  case False
  with assms show ?thesis by (simp add: removeQuestion_def)
next
  case True
  let ?s' = "snd (removeQuestion s i)"
  from assms have dk: "distinct (map fst (store s))"
    and filed: "\<forall>(t, b) \<in> set (store s). \<forall>d. \<forall>q \<in> set (b d). topic q = t \<and> difficulty q = d"
    and ids: "idSet s = qid ` set (getAllQuestions s)"
    and dist: "distinct (map qid (getAllQuestions s))"
    by (simp_all add: store_inv_def)
  have all': "getAllQuestions ?s' = filter (\<lambda>q. qid q \<noteq> i) (getAllQuestions s)"
    using True dist concat_map_filter_buckets[of "store s" i]
    by (simp add: removeQuestion_def getAllQuestions_def Let_def)
  from True ids obtain q where q: "q \<in> set (getAllQuestions s)" "qid q = i" by auto
  then obtain t b where tb: "(t, b) \<in> set (store s)" "q \<in> set (b Easy @ b Medium @ b Hard)"
    by (auto simp: getAllQuestions_def)
  then have "\<exists>d \<in> {Easy, Medium, Hard}. hasId i (b d)"
    using q(2) by (auto simp: hasId_def)
  with tb(1) have removed: "\<exists>(t, b) \<in> set (store s). \<exists>d \<in> {Easy, Medium, Hard}. hasId i (b d)"
    by blast
  have i': "idSet ?s' = qid ` set (getAllQuestions ?s')"
    unfolding all' using True removed ids
    by (auto simp: removeQuestion_def Let_def)
  have d': "distinct (map qid (getAllQuestions ?s'))"
    unfolding all' using dist by (simp add: distinct_map_filter)
  have k': "distinct (map fst (store ?s'))"
    using True dk by (simp add: removeQuestion_def Let_def comp_def case_prod_unfold)
  have sub: "set (spliceById i xs) \<subseteq> set xs" for xs
    by (induction xs) auto
  have f': "\<forall>(t, b) \<in> set (store ?s'). \<forall>d. \<forall>q \<in> set (b d). topic q = t \<and> difficulty q = d"
    using True filed sub by (fastforce simp: removeQuestion_def Let_def)
  from k' f' i' d' show ?thesis by (simp add: store_inv_def)
qed

lemma reachable_inv: "reachable s \<Longrightarrow> store_inv s"
  by (induction rule: reachable.induct) (simp_all add: store_inv_new store_inv_add store_inv_remove)


lemma reachable_addQuestions: "reachable s \<Longrightarrow> reachable (addQuestions s qs)"
  unfolding addQuestions_def
  by (induction qs arbitrary: s) (simp_all add: reachable_add)

lemma reachable_questionStore: "reachable questionStore"
  unfolding questionStore_def by (rule reachable_addQuestions) (rule reachable_new)

subsection \<open>The sample store, evaluated\<close>

lemma sample_qid:
  "qid q1 = ''1''" "qid q2 = ''2''" "qid q3 = ''3''" "qid q4 = ''4''" "qid q5 = ''5''"
  "qid q6 = ''6''" "qid q7 = ''7''" "qid q8 = ''8''" "qid q9 = ''9''" "qid q10 = ''10''"
  by (simp_all add: q1_def q2_def q3_def q4_def q5_def q6_def q7_def q8_def q9_def q10_def)

lemma sample_difficulty:
  "difficulty q1 = Easy" "difficulty q2 = Easy" "difficulty q3 = Medium" "difficulty q4 = Medium"
  "difficulty q5 = Hard" "difficulty q6 = Medium" "difficulty q7 = Easy" "difficulty q8 = Hard"
  "difficulty q9 = Medium" "difficulty q10 = Hard"
  by (simp_all add: q1_def q2_def q3_def q4_def q5_def q6_def q7_def q8_def q9_def q10_def)

lemma sample_topic:
  "topic q1 = Searching" "topic q2 = Arrays" "topic q3 = LinkedLists" "topic q4 = DynamicProgramming"
  "topic q5 = Graphs" "topic q6 = Sorting" "topic q7 = Trees" "topic q8 = Recursion"
  "topic q9 = GreedyAlgorithms" "topic q10 = Strings"
  by (simp_all add: q1_def q2_def q3_def q4_def q5_def q6_def q7_def q8_def q9_def q10_def)

lemma getAll_sample: "getAllQuestions questionStore = [q2, q10, q3, q7, q5, q4, q6, q1, q8, q9]"
  by (simp add: questionStore_def addQuestions_def sampleQuestions_def addQuestion_def
      newQuestionStore_def allTopics_def emptyBuckets_def getAllQuestions_def Let_def
      sample_qid sample_difficulty sample_topic)



section \<open>Uniqueness of ids\<close>

text \<open>
  C7. In every state that a store reaches from the constructor by \<^verbatim>\<open>addQuestion\<close> and
  \<^verbatim>\<open>removeQuestion\<close> calls, and after any further sequence of \<^verbatim>\<open>addQuestion\<close> calls, no
  two stored questions share an id. An \<^verbatim>\<open>addQuestion\<close> call with the id of a stored
  question returns false and leaves the store as it is, so \<^verbatim>\<open>getQuestionCounts\<close>
  returns the same counts after the call as before it.
\<close>

theorem addQuestion_ids_unique:
  "reachable s \<Longrightarrow>
     distinct (map qid (getAllQuestions (addQuestions s qs))) \<and>
     (hasId (qid q) (getAllQuestions s) \<longrightarrow>
        addQuestion s q = (False, s) \<and>
        getQuestionCounts (snd (addQuestion s q)) = getQuestionCounts s)"
proof -
  assume r: "reachable s"
  then have "store_inv (addQuestions s qs)"
    by (intro reachable_inv reachable_addQuestions)
  then have 1: "distinct (map qid (getAllQuestions (addQuestions s qs)))"
    by (simp add: store_inv_def)
  from r have "idSet s = qid ` set (getAllQuestions s)"
    using reachable_inv by (simp add: store_inv_def)
  then have "hasId (qid q) (getAllQuestions s) \<longrightarrow> qid q \<in> idSet s"
    unfolding hasId_def by (metis imageI)
  then have 2: "hasId (qid q) (getAllQuestions s) \<longrightarrow> addQuestion s q = (False, s)"
    by (simp add: addQuestion_def)
  from 1 2 show ?thesis by simp
qed

theorem addQuestion_ids_unique_witness:
  "reachable questionStore \<and> hasId (qid q3) (getAllQuestions questionStore) \<and>
   distinct (map qid (getAllQuestions (addQuestions questionStore [q1, q3]))) \<and>
   addQuestion questionStore q3 = (False, questionStore) \<and>
   getQuestionCounts (snd (addQuestion questionStore q3)) = getQuestionCounts questionStore"
  using addQuestion_ids_unique [OF reachable_questionStore, of "[q1, q3]" q3]
  by (simp add: reachable_questionStore getAll_sample hasId_def sample_qid)


section \<open>Random selection\<close>

lemma randomIndex_less: "0 < n \<Longrightarrow> fst (randomIndex rnd n) < n"
  by (cases rnd) (simp_all add: randomIndex_def)

lemma pickRandom_length: "length (fst (pickRandom k rnd xs)) = min k (length xs)"
proof (induction k arbitrary: rnd xs)
  case 0
  then show ?case by simp
next
  case (Suc k)
  show ?case
  proof (cases "xs = []")
    case True
    then show ?thesis by simp
  next
    case False
    obtain i rnd' where r: "randomIndex rnd (length xs) = (i, rnd')" by (cases "randomIndex rnd (length xs)")
    with randomIndex_less[of "length xs" rnd] False have i: "i < length xs" by simp
    obtain res rnd'' where p: "pickRandom k rnd' (take i xs @ drop (Suc i) xs) = (res, rnd'')"
      by (cases "pickRandom k rnd' (take i xs @ drop (Suc i) xs)")
    from Suc.IH[of rnd' "take i xs @ drop (Suc i) xs"] p i
    have "length res = min k (length xs - 1)" by (simp add: min_def)
    moreover have "0 < length xs" using False by simp
    ultimately have "Suc (length res) = min (Suc k) (length xs)" by arith
    with False r p show ?thesis by simp
  qed
qed

lemma pickRandom_subset: "set (fst (pickRandom k rnd xs)) \<subseteq> set xs"
proof (induction k arbitrary: rnd xs)
  case 0
  then show ?case by simp
next
  case (Suc k)
  show ?case
  proof (cases "xs = []")
    case True
    then show ?thesis by simp
  next
    case False
    obtain i rnd' where r: "randomIndex rnd (length xs) = (i, rnd')" by (cases "randomIndex rnd (length xs)")
    with randomIndex_less[of "length xs" rnd] False have i: "i < length xs" by simp
    obtain res rnd'' where p: "pickRandom k rnd' (take i xs @ drop (Suc i) xs) = (res, rnd'')"
      by (cases "pickRandom k rnd' (take i xs @ drop (Suc i) xs)")
    from Suc.IH[of rnd' "take i xs @ drop (Suc i) xs"] p
    have "set res \<subseteq> set (take i xs) \<union> set (drop (Suc i) xs)" by simp
    then have "set res \<subseteq> set xs"
      using set_take_subset[of i xs] set_drop_subset[of "Suc i" xs] by blast
    with False r p i show ?thesis by simp
  qed
qed

lemma getRandomElements_length:
  "int (length (fst (getRandomElements rnd xs c))) \<le> max 0 c"
  by (simp add: getRandomElements_def pickRandom_length)

lemma getRandomElements_length_exact:
  "0 \<le> c \<Longrightarrow> c \<le> int (length xs) \<Longrightarrow> int (length (fst (getRandomElements rnd xs c))) = c"
  by (simp add: getRandomElements_def pickRandom_length)

lemma getRandomElements_subset: "set (fst (getRandomElements rnd xs c)) \<subseteq> set xs"
  by (simp add: getRandomElements_def pickRandom_subset)

lemma initial_groups: "fold (\<lambda>t m. m(t \<mapsto> [])) tps m0 t = (if t \<in> set tps then Some [] else m0 t)"
  by (induction tps arbitrary: m0) auto

lemma fill_groups:
  "fold (\<lambda>q m. case m (topic q) of None \<Rightarrow> m | Some qs \<Rightarrow> m(topic q \<mapsto> qs @ [q])) xs m t
   = (case m t of None \<Rightarrow> None | Some qs \<Rightarrow> Some (qs @ filter (\<lambda>q. topic q = t) xs))"
proof (induction xs arbitrary: m)
  case Nil
  then show ?case by (simp split: option.splits)
next
  case (Cons x xs)
  show ?case by (simp add: Cons.IH split: option.splits)
qed

lemma groupByTopic_eq:
  "groupByTopic qs tps t = (if t \<in> set tps then Some (filter (\<lambda>q. topic q = t) qs) else None)"
  by (simp add: groupByTopic_def fill_groups initial_groups)

lemma select_none:
  assumes "cnt < int (length qs)" and "\<not> (\<exists>t \<in> set tps. \<exists>q \<in> set qs. topic q = t)"
  shows "selectQuestionsWithDiversity rnd qs cnt tps = ([], rnd)"
proof -
  have "filter (\<lambda>t. case groupByTopic qs tps t of None \<Rightarrow> False | Some xs \<Rightarrow> length xs > 0) tps = []"
    using assms(2) by (auto simp: groupByTopic_eq filter_empty_conv)
  with assms(1) show ?thesis by (simp add: selectQuestionsWithDiversity_def Let_def)
qed

section \<open>The diversity selection: size and content\<close>

lemma selectFromTopic_size:
  assumes "0 \<le> base" "size_inv cnt base (Suc n) st"
  shows "size_inv cnt base n (selectFromTopic base t st)"
proof -
  define tq where "tq = (case questionsByTopic st t of None \<Rightarrow> [] | Some qs \<Rightarrow> qs)"
  define c0 where "c0 = min base (int (length tq))"
  define extra where "extra \<longleftrightarrow> remainder st > 0 \<and> int (length tq) > c0"
  define c where "c = (if extra then c0 + 1 else c0)"
  obtain sel rnd' where g: "getRandomElements (randoms st) tq c = (sel, rnd')"
    by (cases "getRandomElements (randoms st) tq c")
  have c0: "0 \<le> c0" "c0 \<le> base" using assms(1) by (simp_all add: c0_def)
  then have c: "0 \<le> c" "c \<le> base + (if extra then 1 else 0)" by (simp_all add: c_def)
  from getRandomElements_length[of "randoms st" tq c] g c(1)
  have len: "int (length sel) \<le> c" by simp
  have st': "selectFromTopic base t st =
      \<lparr> selected = selected st @ sel,
        questionsByTopic = (questionsByTopic st)(t \<mapsto> fold remove1 sel tq),
        remainder = (if extra then remainder st - 1 else remainder st),
        remainingCount = remainingCount st - c,
        randoms = rnd' \<rparr>"
    using g unfolding c_def
    by (cases extra) (simp_all add: selectFromTopic_def Let_def tq_def[symmetric] c0_def[symmetric]
        extra_def[symmetric])
  from assms(2) have a: "0 \<le> remainder st"
    "int (length (selected st)) + remainingCount st \<le> cnt"
    "base * (int n + 1) + remainder st \<le> remainingCount st"
    by (simp_all add: size_inv_def add.commute)
  have e: "extra \<Longrightarrow> 0 < remainder st" by (simp add: extra_def)
  from a(3) have a3: "base * int n + base + remainder st \<le> remainingCount st"
    by (simp add: algebra_simps)
  show ?thesis
    unfolding st' size_inv_def using a(1,2) a3 c len e by (cases extra) simp_all
qed

lemma fold_selectFromTopic_size:
  "0 \<le> base \<Longrightarrow> size_inv cnt base (length ts) st \<Longrightarrow>
   size_inv cnt base 0 (fold (selectFromTopic base) ts st)"
proof (induction ts arbitrary: st)
  case Nil
  then show ?case by simp
next
  case (Cons t ts)
  from selectFromTopic_size[OF Cons.prems(1), of cnt "length ts" st t] Cons.prems(2)
  have "size_inv cnt base (length ts) (selectFromTopic base t st)" by simp
  from Cons.IH[OF Cons.prems(1) this] show ?case by simp
qed

lemma jsRemainder_nonneg: "0 \<le> a \<Longrightarrow> 0 < b \<Longrightarrow> jsRemainder a b = a mod b"
  by (cases "a = 0") (simp_all add: jsRemainder_def)

lemma selectQuestionsWithDiversity_length:
  assumes "0 \<le> cnt"
  shows "int (length (fst (selectQuestionsWithDiversity rnd qs cnt tps))) \<le> cnt"
proof (cases "int (length qs) \<le> cnt")
  case True
  then show ?thesis by (simp add: selectQuestionsWithDiversity_def)
next
  case False
  define tw where "tw = filter (\<lambda>t. case groupByTopic qs tps t of None \<Rightarrow> False | Some xs \<Rightarrow> length xs > 0) tps"
  show ?thesis
  proof (cases "tw = []")
    case True
    with False assms show ?thesis
      by (simp add: selectQuestionsWithDiversity_def Let_def tw_def[symmetric])
  next
    case nonempty: False
    define k where "k = int (length tw)"
    have k: "0 < k" using nonempty by (simp add: k_def)
    define base where "base = cnt div k"
    define st0 where "st0 = \<lparr> selected = [], questionsByTopic = groupByTopic qs tps,
        remainder = jsRemainder cnt k, remainingCount = cnt, randoms = rnd \<rparr>"
    define st where "st = fold (selectFromTopic base) tw st0"
    have base: "0 \<le> base" using assms k by (simp add: base_def pos_imp_zdiv_nonneg_iff)
    have "base * k + cnt mod k = cnt" by (simp add: base_def)
    then have "size_inv cnt base (length tw) st0"
      using assms k by (simp add: size_inv_def st0_def jsRemainder_nonneg k_def)
    from fold_selectFromTopic_size[OF base this]
    have fin: "0 \<le> remainder st" "int (length (selected st)) + remainingCount st \<le> cnt"
      "remainder st \<le> remainingCount st"
      by (simp_all add: size_inv_def st_def)
    obtain add rnd' where g: "getRandomElements (randoms st) (filter (\<lambda>q. q \<notin> set (selected st)) qs) (remainingCount st) = (add, rnd')"
      by (cases "getRandomElements (randoms st) (filter (\<lambda>q. q \<notin> set (selected st)) qs) (remainingCount st)")
    have res: "fst (selectQuestionsWithDiversity rnd qs cnt tps) =
       (if remainingCount st > 0 then selected st @ add else selected st)"
      using False nonempty g
      by (simp add: selectQuestionsWithDiversity_def Let_def tw_def[symmetric] k_def[symmetric]
          base_def[symmetric] st0_def[symmetric] st_def[symmetric])
    from getRandomElements_length[of "randoms st" "filter (\<lambda>q. q \<notin> set (selected st)) qs" "remainingCount st"] g
    have "int (length add) \<le> max 0 (remainingCount st)" by simp
    with fin show ?thesis unfolding res by simp
  qed
qed

lemma fold_remove1_subset: "set (fold remove1 ys xs) \<subseteq> set xs"
proof (induction ys arbitrary: xs)
  case Nil
  then show ?case by simp
next
  case (Cons y ys)
  have "set (fold remove1 ys (remove1 y xs)) \<subseteq> set (remove1 y xs)" by (rule Cons.IH)
  also have "\<dots> \<subseteq> set xs" by (rule set_remove1_subset)
  finally show ?case by simp
qed

lemma selectFromTopic_sub:
  assumes "sub_inv qs st"
  shows "sub_inv qs (selectFromTopic base t st)"
proof -
  define tq where "tq = (case questionsByTopic st t of None \<Rightarrow> [] | Some xs \<Rightarrow> xs)"
  define c0 where "c0 = min base (int (length tq))"
  define extra where "extra \<longleftrightarrow> remainder st > 0 \<and> int (length tq) > c0"
  define c where "c = (if extra then c0 + 1 else c0)"
  obtain sel rnd' where g: "getRandomElements (randoms st) tq c = (sel, rnd')"
    by (cases "getRandomElements (randoms st) tq c")
  have st': "selectFromTopic base t st =
      \<lparr> selected = selected st @ sel,
        questionsByTopic = (questionsByTopic st)(t \<mapsto> fold remove1 sel tq),
        remainder = (if extra then remainder st - 1 else remainder st),
        remainingCount = remainingCount st - c,
        randoms = rnd' \<rparr>"
    using g unfolding c_def
    by (cases extra) (simp_all add: selectFromTopic_def Let_def tq_def[symmetric] c0_def[symmetric]
        extra_def[symmetric])
  have tq: "set tq \<subseteq> set qs"
  proof (cases "questionsByTopic st t")
    case None
    then show ?thesis by (simp add: tq_def)
  next
    case (Some xs)
    with assms show ?thesis by (simp add: tq_def sub_inv_def)
  qed
  from getRandomElements_subset[of "randoms st" tq c] g have "set sel \<subseteq> set tq" by simp
  moreover have "set (fold remove1 sel tq) \<subseteq> set tq" by (rule fold_remove1_subset)
  ultimately show ?thesis unfolding st' using assms tq by (auto simp: sub_inv_def)
qed

lemma fold_selectFromTopic_sub:
  "sub_inv qs st \<Longrightarrow> sub_inv qs (fold (selectFromTopic base) ts st)"
  by (induction ts arbitrary: st) (simp_all add: selectFromTopic_sub)

lemma selectQuestionsWithDiversity_subset:
  "set (fst (selectQuestionsWithDiversity rnd qs cnt tps)) \<subseteq> set qs"
proof -
  define tw where "tw = filter (\<lambda>t. case groupByTopic qs tps t of None \<Rightarrow> False | Some xs \<Rightarrow> length xs > 0) tps"
  define base where "base = cnt div int (length tw)"
  define st0 where "st0 = \<lparr> selected = [], questionsByTopic = groupByTopic qs tps,
        remainder = jsRemainder cnt (int (length tw)), remainingCount = cnt, randoms = rnd \<rparr>"
  define st where "st = fold (selectFromTopic base) tw st0"
  have "sub_inv qs st0" by (auto simp: sub_inv_def st0_def groupByTopic_eq split: if_splits)
  then have "sub_inv qs st" unfolding st_def by (rule fold_selectFromTopic_sub)
  then have s: "set (selected st) \<subseteq> set qs" by (simp add: sub_inv_def)
  obtain add rnd' where g: "getRandomElements (randoms st) (filter (\<lambda>q. q \<notin> set (selected st)) qs) (remainingCount st) = (add, rnd')"
    by (cases "getRandomElements (randoms st) (filter (\<lambda>q. q \<notin> set (selected st)) qs) (remainingCount st)")
  from getRandomElements_subset[of "randoms st" "filter (\<lambda>q. q \<notin> set (selected st)) qs" "remainingCount st"] g
  have a: "set add \<subseteq> set qs" by auto
  show ?thesis using s a g
    by (simp add: selectQuestionsWithDiversity_def Let_def tw_def[symmetric]
          base_def[symmetric] st0_def[symmetric] st_def[symmetric])
qed

section \<open>The distribution\<close>

lemma reduceExcess_three:
  "reduceExcess [Hard, Medium, Easy] c ex =
     (if ex - min (c Hard) ex = 0 then c(Hard := c Hard - min (c Hard) ex)
      else if ex - min (c Hard) ex - min (c Medium) (ex - min (c Hard) ex) = 0
        then c(Hard := c Hard - min (c Hard) ex,
               Medium := c Medium - min (c Medium) (ex - min (c Hard) ex))
        else c(Hard := c Hard - min (c Hard) ex,
               Medium := c Medium - min (c Medium) (ex - min (c Hard) ex),
               Easy := c Easy - min (c Easy) (ex - min (c Hard) ex - min (c Medium) (ex - min (c Hard) ex))))"
  by (simp add: Let_def)

lemma reduceExcess_Hard_Medium_Easy:
  assumes "0 \<le> c Easy" "0 \<le> c Medium" "0 \<le> c Hard" "0 < ex"
    and "r = reduceExcess [Hard, Medium, Easy] c ex"
  shows "r Hard = c Hard - min (c Hard) ex"
    and "r Medium = c Medium - min (c Medium) (ex - min (c Hard) ex)"
    and "r Easy = c Easy - min (c Easy) (ex - min (c Hard) ex - min (c Medium) (ex - min (c Hard) ex))"
proof -
  define rH where "rH = min (c Hard) ex"
  define rM where "rM = min (c Medium) (ex - rH)"
  define rE where "rE = min (c Easy) (ex - rH - rM)"
  have r: "r = (if ex - rH = 0 then c(Hard := c Hard - rH)
      else if ex - rH - rM = 0 then c(Hard := c Hard - rH, Medium := c Medium - rM)
      else c(Hard := c Hard - rH, Medium := c Medium - rM, Easy := c Easy - rE))"
    unfolding assms(5) reduceExcess_three rH_def rM_def rE_def ..
  have z1: "ex - rH = 0 \<Longrightarrow> rM = 0 \<and> rE = 0" using assms(1,2) by (simp add: rM_def rE_def)
  have z2: "ex - rH - rM = 0 \<Longrightarrow> rE = 0" using assms(1) by (simp add: rE_def)
  show "r Hard = c Hard - min (c Hard) ex"
    unfolding r rH_def[symmetric] by simp
  show "r Medium = c Medium - min (c Medium) (ex - min (c Hard) ex)"
    unfolding r rH_def[symmetric] rM_def[symmetric] using z1 by simp
  show "r Easy = c Easy - min (c Easy) (ex - min (c Hard) ex - min (c Medium) (ex - min (c Hard) ex))"
    unfolding r rH_def[symmetric] rM_def[symmetric] rE_def[symmetric] using z1 z2 by simp
qed

lemma trim_sum:
  fixes cE cM cH ex :: int
  assumes "0 \<le> cE" "0 \<le> cM" "0 \<le> cH" "0 < ex" "ex \<le> cE + cM + cH"
  shows "(cE - min cE (ex - min cH ex - min cM (ex - min cH ex)))
       + (cM - min cM (ex - min cH ex)) + (cH - min cH ex) = cE + cM + cH - ex"
  using assms by linarith

lemma trim_nonneg:
  fixes c ex :: int
  shows "0 \<le> c \<Longrightarrow> 0 \<le> c - min c ex"
  by linarith

subsection \<open>Rounding to a double\<close>

lemma two_powi_Suc: "(2::rat) powi (e + 1) = 2 powi e * 2"
  by (simp add: power_int_add)

lemma binade_bounds: "0 < x \<Longrightarrow> 2 powi (binade x) \<le> x \<and> x < 2 powi (binade x + 1)"
proof (induction x rule: binade.induct)
  case (1 x)
  show ?case
  proof (cases "2 \<le> x")
    case True
    define b where "b = binade (x / 2)"
    from True "1.prems" "1.IH"(1) have "2 powi b \<le> x / 2 \<and> x / 2 < 2 powi (b + 1)"
      by (simp add: b_def)
    then have "2 powi b * 2 \<le> x" "x < 2 powi (b + 1) * 2" by simp_all
    then have "2 powi (b + 1) \<le> x" "x < 2 powi (b + 1 + 1)"
      by (simp_all only: two_powi_Suc)
    moreover have "binade x = b + 1" using True "1.prems" by (subst binade.simps) (simp add: b_def)
    ultimately show ?thesis by (simp only: simp_thms)
  next
    case False
    show ?thesis
    proof (cases "x < 1")
      case True
      define b where "b = binade (x * 2)"
      define c where "c = (2::rat) powi (b - 1)"
      have pb: "2 powi b = c * 2" using two_powi_Suc[of "b - 1"] by (simp add: c_def)
      have pb1: "2 powi (b + 1) = c * 2 * 2" by (simp only: two_powi_Suc pb)
      from True False "1.prems" "1.IH"(2) have "2 powi b \<le> x * 2" "x * 2 < 2 powi (b + 1)"
        by (simp_all add: b_def)
      then have "c * 2 \<le> x * 2" "x * 2 < c * 2 * 2" by (simp_all only: pb pb1)
      then have "c \<le> x" "x < c * 2" by simp_all
      then have "2 powi (b - 1) \<le> x" "x < 2 powi b" by (simp_all only: pb) (simp_all only: c_def)
      moreover have "binade x = b - 1" using True False "1.prems" by (subst binade.simps) (simp add: b_def)
      ultimately show ?thesis by simp
    next
      case ge: False
      with False "1.prems" have "binade x = 0" by (subst binade.simps) simp
      with False ge show ?thesis by simp
    qed
  qed
qed


lemma binade_eqI:
  assumes "2 powi e \<le> x" and "x < 2 powi (e + 1)"
  shows "binade x = e"
proof -
  have "(0::rat) < 2 powi e" by simp
  then have pos: "0 < x" using assms(1) by (rule less_le_trans)
  note b = binade_bounds[OF pos]
  have 1: "e < binade x + 1"
  proof (rule ccontr)
    assume "\<not> e < binade x + 1"
    then have "(2::rat) powi (binade x + 1) \<le> 2 powi e" by (intro power_int_increasing) simp_all
    with assms(1) b show False by simp
  qed
  have 2: "binade x < e + 1"
  proof (rule ccontr)
    assume "\<not> binade x < e + 1"
    then have "(2::rat) powi (e + 1) \<le> 2 powi (binade x)" by (intro power_int_increasing) simp_all
    with assms(2) b show False by simp
  qed
  from 1 2 show ?thesis by simp
qed

lemma roundHalfEven_nonneg: "0 \<le> x \<Longrightarrow> 0 \<le> roundHalfEven x"
  by (simp add: roundHalfEven_def Let_def)

lemma toDouble_nonneg: "0 \<le> x \<Longrightarrow> 0 \<le> toDouble x"
  by (simp add: toDouble_def roundHalfEven_nonneg)

lemma roundHalfEven_eqI:
  assumes "of_int k - 1 / 2 < x" and "x < of_int k + 1 / 2"
  shows "roundHalfEven x = k"
proof (cases "of_int k \<le> x")
  case True
  with assms(2) have f: "\<lfloor>x\<rfloor> = k" by (intro floor_unique) simp_all
  with assms(2) show ?thesis by (simp add: roundHalfEven_def Let_def)
next
  case False
  with assms(1) have f: "\<lfloor>x\<rfloor> = k - 1" by (intro floor_unique) simp_all
  with assms(1) show ?thesis by (simp add: roundHalfEven_def Let_def)
qed

lemma toDouble_eqI:
  assumes "2 powi e \<le> x" and "x < 2 powi (e + 1)"
    and "of_int m - 1 / 2 < x / 2 powi (e - 52)" and "x / 2 powi (e - 52) < of_int m + 1 / 2"
  shows "toDouble x = of_int m * 2 powi (e - 52)"
proof -
  have "(0::rat) < 2 powi e" by simp
  then have pos: "0 < x" using assms(1) by (rule less_le_trans)
  then have "binade \<bar>x\<bar> = e" using binade_eqI[OF assms(1,2)] by simp
  with pos roundHalfEven_eqI[OF assms(3,4)] show ?thesis by (simp add: toDouble_def)
qed

lemma toDouble_0: "toDouble 0 = 0"
  by (simp add: toDouble_def)

lemma toDouble_1: "toDouble 1 = 1"
  using toDouble_eqI[of 0 1 "2 ^ 52"] by (simp add: power_int_minus_divide)

lemma toDouble_2: "toDouble 2 = 2"
  using toDouble_eqI[of 1 2 "2 ^ 52"] by (simp add: power_int_minus_divide)

lemma mathRound_of_int: "mathRound (of_int k) = k"
  unfolding mathRound_def by (rule floor_unique) simp_all

lemma mathRound_0: "mathRound 0 = 0"
  using mathRound_of_int[of 0] by simp

lemma mathRound_2: "mathRound 2 = 2"
  using mathRound_of_int[of 2] by simp

lemma mathRound_nonneg: "0 \<le> x \<Longrightarrow> 0 \<le> mathRound x"
  by (simp add: mathRound_def)

text \<open>
  The double nearest to a third is below it, and five times it rounds to a double below
  five thirds; the nearest integer is still 2.
\<close>

lemma toDouble_third: "toDouble (1 / 3) = 6004799503160661 / 2 ^ 54"
  using toDouble_eqI[of "-2" "1 / 3" 6004799503160661]
  by (simp add: power_int_minus_divide)

lemma toDouble_five_thirds: "toDouble (6004799503160661 / 2 ^ 54 * 5) = 7505999378950826 / 2 ^ 52"
  using toDouble_eqI[of 0 "6004799503160661 / 2 ^ 54 * 5" 7505999378950826]
  by (simp add: power_int_minus_divide)

lemma mathRound_5_3: "mathRound (toDouble (toDouble (1 / 3) * 5)) = 2"
  unfolding toDouble_third toDouble_five_thirds mathRound_def by (rule floor_unique) simp_all

text \<open>
  The rounding of the quotient shows in the result. Seven tenths of 45 are 31.5, which
  \<^verbatim>\<open>Math.round\<close> would take to 32; the double nearest to 0.7 is below 0.7, its product
  with 45 rounds to the double 31.499999999999996, and the wish is 31. Three tenths of 45
  are 13.5; the double nearest to 0.3 is below 0.3, but the product rounds to the double
  13.5, and the wish is 14.
\<close>

lemma toDouble_7_10: "toDouble (7 / 10) = 6305039478318694 / 2 ^ 53"
  using toDouble_eqI[of "-1" "7 / 10" 6305039478318694]
  by (simp add: power_int_minus_divide)

lemma toDouble_7_10_45: "toDouble (6305039478318694 / 2 ^ 53 * 45) = 8866461766385663 / 2 ^ 48"
  using toDouble_eqI[of 4 "6305039478318694 / 2 ^ 53 * 45" 8866461766385663]
  by (simp add: power_int_minus_divide)

lemma toDouble_3_10: "toDouble (3 / 10) = 5404319552844595 / 2 ^ 54"
  using toDouble_eqI[of "-2" "3 / 10" 5404319552844595]
  by (simp add: power_int_minus_divide)

lemma toDouble_3_10_45: "toDouble (5404319552844595 / 2 ^ 54 * 45) = 27 / 2"
  using toDouble_eqI[of 3 "5404319552844595 / 2 ^ 54 * 45" 7599824371187712]
  by (simp add: power_int_minus_divide)

lemma mathRound_7_10_45: "mathRound (toDouble (toDouble (7 / 10) * 45)) = 31"
  unfolding toDouble_7_10 toDouble_7_10_45 mathRound_def by (rule floor_unique) simp_all

lemma mathRound_3_10_45: "mathRound (toDouble (toDouble (3 / 10) * 45)) = 14"
  unfolding toDouble_3_10 toDouble_3_10_45 mathRound_def by (rule floor_unique) simp_all

lemma desired_7_3_0:
  "desired 45 (\<lambda>d. case d of Easy \<Rightarrow> 7 | Medium \<Rightarrow> 3 | Hard \<Rightarrow> 0) Easy = 31"
  "desired 45 (\<lambda>d. case d of Easy \<Rightarrow> 7 | Medium \<Rightarrow> 3 | Hard \<Rightarrow> 0) Medium = 14"
  "desired 45 (\<lambda>d. case d of Easy \<Rightarrow> 7 | Medium \<Rightarrow> 3 | Hard \<Rightarrow> 0) Hard = 0"
  using mathRound_7_10_45 mathRound_3_10_45
  by (simp_all add: desired_def totalWeight_def toDouble_0 mathRound_0)

subsection \<open>The wishes and their trimming\<close>

lemma desired_nonneg: "0 \<le> n \<Longrightarrow> 0 \<le> desired n w d"
  unfolding desired_def
  by (intro mathRound_nonneg toDouble_nonneg mult_nonneg_nonneg divide_nonneg_nonneg) simp_all

lemma clamped_nonneg: "0 \<le> n \<Longrightarrow> 0 \<le> clamped n w qs d"
  by (simp add: clamped_def desired_nonneg availableCounts_def)

text \<open>
  With 40 easy and 20 medium questions at hand, the wishes 31, 14 and 0 are the
  distribution: they add up to 45 and nothing is taken away.
\<close>

lemma clamped_7_3_0:
  assumes "availableCounts qs Easy = 40" "availableCounts qs Medium = 20" "availableCounts qs Hard = 0"
  shows "clamped 45 (\<lambda>d. case d of Easy \<Rightarrow> 7 | Medium \<Rightarrow> 3 | Hard \<Rightarrow> 0) qs Easy = 31"
    and "clamped 45 (\<lambda>d. case d of Easy \<Rightarrow> 7 | Medium \<Rightarrow> 3 | Hard \<Rightarrow> 0) qs Medium = 14"
    and "clamped 45 (\<lambda>d. case d of Easy \<Rightarrow> 7 | Medium \<Rightarrow> 3 | Hard \<Rightarrow> 0) qs Hard = 0"
  by (simp_all add: clamped_def desired_7_3_0 assms)

lemma calculateDistribution_7_3_0:
  assumes "availableCounts qs Easy = 40" "availableCounts qs Medium = 20" "availableCounts qs Hard = 0"
  shows "calculateDistribution 45 (\<lambda>d. case d of Easy \<Rightarrow> 7 | Medium \<Rightarrow> 3 | Hard \<Rightarrow> 0) qs
    = Some (clamped 45 (\<lambda>d. case d of Easy \<Rightarrow> 7 | Medium \<Rightarrow> 3 | Hard \<Rightarrow> 0) qs)"
  unfolding calculateDistribution_def Let_def clamped_7_3_0[OF assms]
  by (simp add: totalWeight_def)

lemma calculateDistribution_total:
  assumes "0 < totalWeight w" "0 \<le> n"
  obtains ds where "calculateDistribution n w qs = Some ds"
    and "\<And>d. 0 \<le> ds d" and "ds Easy + ds Medium + ds Hard \<le> n"
proof -
  define c where "c = clamped n w qs"
  have c: "0 \<le> c d" for d using assms(2) by (simp add: c_def clamped_nonneg)
  define total where "total = c Easy + c Medium + c Hard"
  show thesis
  proof (cases "total \<le> n")
    case True
    then have "calculateDistribution n w qs = Some c"
      using assms(1) by (auto simp: calculateDistribution_def Let_def c_def total_def)
    with c True show ?thesis by (intro that[of c]) (simp_all add: total_def)
  next
    case False
    define r where "r = reduceExcess [Hard, Medium, Easy] c (total - n)"
    from False have cd: "calculateDistribution n w qs = Some r"
      using assms(1) by (simp add: calculateDistribution_def Let_def c_def r_def total_def)
    have ex: "0 < total - n" "total - n \<le> c Easy + c Medium + c Hard"
      using False assms(2) by (simp_all add: total_def)
    note rs = reduceExcess_Hard_Medium_Easy[OF c c c ex(1) r_def]
    have "0 \<le> r d" for d
      using rs trim_nonneg[OF c[of Easy]] trim_nonneg[OF c[of Medium]] trim_nonneg[OF c[of Hard]]
      by (cases d) simp_all
    moreover have "r Easy + r Medium + r Hard \<le> n"
      unfolding rs using trim_sum[OF c c c ex] by (simp add: total_def)
    ultimately show ?thesis using cd by (intro that[of r]) simp_all
  qed
qed

lemma selectForDifficulty_length:
  "int (length (fst (selectForDifficulty av ds tps d (sel, rnd)))) \<le> int (length sel) + max 0 (ds d)"
proof (cases "ds d \<le> 0")
  case True
  then show ?thesis by (simp add: selectForDifficulty_def)
next
  case False
  define qd where "qd = filter (\<lambda>q. difficulty q = d) av"
  define n where "n = min (ds d) (int (length qd))"
  obtain p rnd' where s: "selectQuestionsWithDiversity rnd qd n tps = (p, rnd')"
    by (cases "selectQuestionsWithDiversity rnd qd n tps")
  have "0 \<le> n" using False by (simp add: n_def)
  from selectQuestionsWithDiversity_length[OF this, of rnd qd tps] s
  have "int (length p) \<le> ds d" by (simp add: n_def)
  with False s show ?thesis
    by (simp add: selectForDifficulty_def Let_def qd_def[symmetric] n_def[symmetric])
qed

lemma selectForDifficulty_subset:
  "set (fst (selectForDifficulty av ds tps d (sel, rnd))) \<subseteq> set sel \<union> set av"
proof (cases "ds d \<le> 0")
  case True
  then show ?thesis by (simp add: selectForDifficulty_def)
next
  case False
  define qd where "qd = filter (\<lambda>q. difficulty q = d) av"
  define n where "n = min (ds d) (int (length qd))"
  obtain p rnd' where s: "selectQuestionsWithDiversity rnd qd n tps = (p, rnd')"
    by (cases "selectQuestionsWithDiversity rnd qd n tps")
  from selectQuestionsWithDiversity_subset[of rnd qd n tps] s
  have "set p \<subseteq> set av" by (auto simp: qd_def)
  with False s show ?thesis
    by (auto simp: selectForDifficulty_def Let_def qd_def[symmetric] n_def[symmetric])
qed

lemma three_rounds:
  obtains s1 r1 s2 r2 s3 r3 where
    "selectForDifficulty av ds tps Easy ([], rnd) = (s1, r1)"
    "selectForDifficulty av ds tps Medium (s1, r1) = (s2, r2)"
    "selectForDifficulty av ds tps Hard (s2, r2) = (s3, r3)"
    "fold (selectForDifficulty av ds tps) [Easy, Medium, Hard] ([], rnd) = (s3, r3)"
proof -
  obtain s1 r1 where 1: "selectForDifficulty av ds tps Easy ([], rnd) = (s1, r1)"
    by (cases "selectForDifficulty av ds tps Easy ([], rnd)")
  obtain s2 r2 where 2: "selectForDifficulty av ds tps Medium (s1, r1) = (s2, r2)"
    by (cases "selectForDifficulty av ds tps Medium (s1, r1)")
  obtain s3 r3 where 3: "selectForDifficulty av ds tps Hard (s2, r2) = (s3, r3)"
    by (cases "selectForDifficulty av ds tps Hard (s2, r2)")
  from 1 2 3 show thesis by (intro that[of s1 r1 s2 r2 s3 r3]) simp_all
qed

lemma rounds_length:
  assumes "\<And>d. 0 \<le> ds d"
  shows "int (length (fst (fold (selectForDifficulty av ds tps) [Easy, Medium, Hard] ([], rnd))))
     \<le> ds Easy + ds Medium + ds Hard"
proof -
  obtain s1 r1 s2 r2 s3 r3 where
    1: "selectForDifficulty av ds tps Easy ([], rnd) = (s1, r1)" and
    2: "selectForDifficulty av ds tps Medium (s1, r1) = (s2, r2)" and
    3: "selectForDifficulty av ds tps Hard (s2, r2) = (s3, r3)" and
    f: "fold (selectForDifficulty av ds tps) [Easy, Medium, Hard] ([], rnd) = (s3, r3)"
    by (rule three_rounds)
  from selectForDifficulty_length[of av ds tps Easy "[]" rnd] 1 assms[of Easy]
  have "int (length s1) \<le> ds Easy" by simp
  moreover from selectForDifficulty_length[of av ds tps Medium s1 r1] 2 assms[of Medium]
  have "int (length s2) \<le> int (length s1) + ds Medium" by simp
  moreover from selectForDifficulty_length[of av ds tps Hard s2 r2] 3 assms[of Hard]
  have "int (length s3) \<le> int (length s2) + ds Hard" by simp
  ultimately show ?thesis using f by simp
qed

lemma rounds_subset:
  "set (fst (fold (selectForDifficulty av ds tps) [Easy, Medium, Hard] ([], rnd))) \<subseteq> set av"
proof -
  obtain s1 r1 s2 r2 s3 r3 where
    1: "selectForDifficulty av ds tps Easy ([], rnd) = (s1, r1)" and
    2: "selectForDifficulty av ds tps Medium (s1, r1) = (s2, r2)" and
    3: "selectForDifficulty av ds tps Hard (s2, r2) = (s3, r3)" and
    f: "fold (selectForDifficulty av ds tps) [Easy, Medium, Hard] ([], rnd) = (s3, r3)"
    by (rule three_rounds)
  from selectForDifficulty_subset[of av ds tps Easy "[]" rnd] 1
  have "set s1 \<subseteq> set av" by simp
  moreover from selectForDifficulty_subset[of av ds tps Medium s1 r1] 2
  have "set s2 \<subseteq> set s1 \<union> set av" by simp
  moreover from selectForDifficulty_subset[of av ds tps Hard s2 r2] 3
  have "set s3 \<subseteq> set s2 \<union> set av" by simp
  ultimately show ?thesis using f by auto
qed

lemma generateExam_questions_subset:
  "set (questions (fst (generateExam s now rnd cfg))) \<subseteq> set (getAvailableQuestions s (topics cfg))"
proof (cases "calculateDistribution (numQuestions cfg) (difficulties cfg) (getAvailableQuestions s (topics cfg))")
  case None
  then show ?thesis by (simp add: generateExam_def)
next
  case (Some ds)
  with rounds_subset[of "getAvailableQuestions s (topics cfg)" ds "topics cfg" rnd]
  show ?thesis by (simp add: generateExam_def Let_def case_prod_unfold)
qed


subsection \<open>Two configurations, evaluated on the sample store\<close>

lemma avail_sample: 
  "availableCounts [q2, q10, q3, q7, q5, q4, q6, q1, q8, q9] Easy = 3"
  "availableCounts [q2, q10, q3, q7, q5, q4, q6, q1, q8, q9] Medium = 4"
  "availableCounts [q2, q10, q3, q7, q5, q4, q6, q1, q8, q9] Hard = 3"
  by (simp_all add: availableCounts_def sample_difficulty)


lemma scenario_fields:
  "numQuestions scenarioConfig = 5" "topics scenarioConfig = []"
  "totalWeight (difficulties scenarioConfig) = 3"
  by (simp_all add: scenarioConfig_def totalWeight_def)

lemma desired_sample: "desired 5 (difficulties scenarioConfig) d = 2"
  using mathRound_5_3 by (simp add: desired_def scenario_fields) (simp add: scenarioConfig_def)

lemma clamped_sample: "clamped 5 (difficulties scenarioConfig) [q2, q10, q3, q7, q5, q4, q6, q1, q8, q9] d = 2"
  by (cases d) (simp_all add: clamped_def desired_sample avail_sample)

lemma dist_sample: "calculateDistribution 5 (difficulties scenarioConfig) [q2, q10, q3, q7, q5, q4, q6, q1, q8, q9] = Some ((\<lambda>d. 2)(Hard := 1))"
  by (simp add: calculateDistribution_def Let_def scenario_fields clamped_sample fun_eq_iff)

lemma sample_neq: "q1 \<noteq> q2" "q1 \<noteq> q7" "q2 \<noteq> q7"
  by (simp_all add: q1_def q2_def q7_def)

lemma sample_store:
  "map_of (store questionStore) Searching = Some (emptyBuckets(Easy := [q1]))"
  "map_of (store questionStore) Arrays = Some (emptyBuckets(Easy := [q2]))"
  "map_of (store questionStore) Trees = Some (emptyBuckets(Easy := [q7]))"
  by (simp_all add: questionStore_def addQuestions_def sampleQuestions_def addQuestion_def
      newQuestionStore_def allTopics_def Let_def sample_qid sample_difficulty sample_topic emptyBuckets_def)

lemma topicsConfig_available:
  "getAvailableQuestions questionStore (topics topicsConfig) = [q1, q2, q7]"
  by (simp add: getAvailableQuestions_def topicsConfig_def getQuestionsByTopic_def sample_store emptyBuckets_def)

lemma topicsConfig_fields:
  "numQuestions topicsConfig = 2" "topics topicsConfig = [Searching, Arrays, Trees]"
  "difficulties topicsConfig Easy = 1" "difficulties topicsConfig Medium = 0"
  "difficulties topicsConfig Hard = 0" "totalWeight (difficulties topicsConfig) = 1"
  by (simp_all add: topicsConfig_def totalWeight_def)

lemma topicsConfig_clamped:
  "clamped 2 (difficulties topicsConfig) [q1, q2, q7] Easy = 2"
  "clamped 2 (difficulties topicsConfig) [q1, q2, q7] Medium = 0"
  "clamped 2 (difficulties topicsConfig) [q1, q2, q7] Hard = 0"
  by (simp_all add: clamped_def desired_def topicsConfig_fields availableCounts_def sample_difficulty
      toDouble_0 toDouble_1 toDouble_2 mathRound_0 mathRound_2)

lemma topicsConfig_distribution:
  "calculateDistribution (numQuestions topicsConfig) (difficulties topicsConfig) [q1, q2, q7]
     = Some (clamped 2 (difficulties topicsConfig) [q1, q2, q7])"
  by (simp add: calculateDistribution_def topicsConfig_fields topicsConfig_clamped Let_def)

lemma topicsConfig_groups: "groupByTopic [q1, q2, q7] [Searching, Arrays, Trees] =
   [Searching \<mapsto> [q1], Arrays \<mapsto> [q2], Trees \<mapsto> [q7]]"
  by (rule ext) (simp add: groupByTopic_eq sample_topic)

lemma pick1: "getRandomElements [] [q] 1 = ([q], [])"
  by (simp add: getRandomElements_def randomIndex_def)

lemma pick0: "getRandomElements rnd xs 0 = ([], rnd)"
  by (simp add: getRandomElements_def)



lemma topicsConfig_selection: "selectQuestionsWithDiversity [] [q1, q2, q7] 2 [Searching, Arrays, Trees] = ([q1, q2], [])"
  by (simp add: selectQuestionsWithDiversity_def topicsConfig_groups jsRemainder_def)
     (simp add: selectFromTopic_def pick1 pick0 Let_def)

lemma topicsConfig_available_list: "getAvailableQuestions questionStore [Searching, Arrays, Trees] = [q1, q2, q7]"
  using topicsConfig_available by (simp add: topicsConfig_fields)

lemma topicsConfig_exam:
  "questions (fst (generateExam questionStore 0 [] topicsConfig)) = [q1, q2]"
  by (simp add: generateExam_def topicsConfig_fields topicsConfig_available_list topicsConfig_distribution[unfolded topicsConfig_fields] topicsConfig_clamped
      selectForDifficulty_def sample_difficulty topicsConfig_selection)

section \<open>The exam\<close>

text \<open>
  C1 (the scenario of the specification). On the store seeded with the ten sample
  questions, \<^verbatim>\<open>generateExam({numQuestions: 5, difficulties: {Easy: 1, Medium: 1, Hard: 1},
  topics: []})\<close> computes the distribution 2, 2, 1 and then selects nothing: with no
  topic listed, every call of the diversity selection finds no topic with questions and
  returns the empty array. The exam has no question, whatever the random numbers are.
\<close>

theorem generateExam_scenario_is_empty:
  "questions (fst (generateExam questionStore now rnd scenarioConfig)) = []"
  by (simp add: generateExam_def getAvailableQuestions_def getAll_sample dist_sample scenario_fields
     selectForDifficulty_def selectQuestionsWithDiversity_def groupByTopic_def sample_difficulty)

text \<open>
  C2. For a configuration with \<^verbatim>\<open>numQuestions > 0\<close> and a positive sum of weights, the
  exam has at most \<^verbatim>\<open>numQuestions\<close> questions, in every state of the store and for every
  sequence of random numbers.
\<close>

theorem generateExam_at_most_numQuestions:
  assumes "0 < numQuestions cfg"
    and "0 < difficulties cfg Easy + difficulties cfg Medium + difficulties cfg Hard"
  shows "int (length (questions (fst (generateExam s now rnd cfg)))) \<le> numQuestions cfg"
proof -
  from assms(2) have w: "0 < totalWeight (difficulties cfg)" by (simp add: totalWeight_def)
  from assms(1) have n: "0 \<le> numQuestions cfg" by simp
  obtain ds where d: "calculateDistribution (numQuestions cfg) (difficulties cfg)
        (getAvailableQuestions s (topics cfg)) = Some ds"
    and nonneg: "\<And>d. 0 \<le> ds d" and le: "ds Easy + ds Medium + ds Hard \<le> numQuestions cfg"
    using calculateDistribution_total[OF w n] by blast
  from rounds_length[of ds "getAvailableQuestions s (topics cfg)" "topics cfg" rnd] nonneg
  have "int (length (fst (fold (selectForDifficulty (getAvailableQuestions s (topics cfg)) ds (topics cfg))
      [Easy, Medium, Hard] ([], rnd)))) \<le> ds Easy + ds Medium + ds Hard" by simp
  with le d show ?thesis by (simp add: generateExam_def Let_def case_prod_unfold)
qed

theorem generateExam_at_most_numQuestions_witness:
  "0 < numQuestions topicsConfig \<and>
   0 < difficulties topicsConfig Easy + difficulties topicsConfig Medium + difficulties topicsConfig Hard \<and>
   questions (fst (generateExam questionStore 0 [] topicsConfig)) = [q1, q2] \<and>
   int (length (questions (fst (generateExam questionStore 0 [] topicsConfig)))) \<le> numQuestions topicsConfig"
  using generateExam_at_most_numQuestions [of topicsConfig questionStore 0 "[]"]
  by (simp add: topicsConfig_fields topicsConfig_exam)

text \<open>
  C3. When the targets (the rounded shares, each cut down to the number of available
  questions of its difficulty) add up to more than \<^verbatim>\<open>numQuestions\<close>, the distribution
  step takes the excess from Hard as far as Hard reaches, then from Medium, then from
  Easy; no target goes below zero and the targets that result add up to
  \<^verbatim>\<open>numQuestions\<close>. The weights have a positive sum and \<^verbatim>\<open>numQuestions\<close> is not
  negative, as in every configuration of the data model.
\<close>

theorem trim_Hard_Medium_Easy:
  assumes "0 < totalWeight weights" and "0 \<le> totalQuestions"
    and "c = clamped totalQuestions weights availableQuestions"
    and "totalQuestions < c Easy + c Medium + c Hard"
    and "excess = c Easy + c Medium + c Hard - totalQuestions"
    and "fromHard = min (c Hard) excess"
    and "fromMedium = min (c Medium) (excess - fromHard)"
    and "fromEasy = min (c Easy) (excess - fromHard - fromMedium)"
  shows "\<exists>distribution.
     calculateDistribution totalQuestions weights availableQuestions = Some distribution \<and>
     distribution Hard = c Hard - fromHard \<and>
     distribution Medium = c Medium - fromMedium \<and>
     distribution Easy = c Easy - fromEasy \<and>
     0 \<le> distribution Hard \<and> 0 \<le> distribution Medium \<and> 0 \<le> distribution Easy \<and>
     distribution Easy + distribution Medium + distribution Hard = totalQuestions"
proof -
  have c: "0 \<le> c d" for d using assms(2,3) by (simp add: clamped_nonneg)
  define r where "r = reduceExcess [Hard, Medium, Easy] c excess"
  have cd: "calculateDistribution totalQuestions weights availableQuestions = Some r"
    unfolding calculateDistribution_def Let_def assms(3)[symmetric] r_def assms(5)
    using assms(1,4) by (simp del: reduceExcess.simps)
  have ex: "0 < excess" "excess \<le> c Easy + c Medium + c Hard"
    using assms(2,4,5) by simp_all
  note rs = reduceExcess_Hard_Medium_Easy[OF c c c ex(1) r_def]
  have 1: "r Hard = c Hard - fromHard" "r Medium = c Medium - fromMedium" "r Easy = c Easy - fromEasy"
    unfolding rs assms(8) assms(7) assms(6) by (rule refl)+
  have 2: "0 \<le> r Hard" "0 \<le> r Medium" "0 \<le> r Easy"
    unfolding rs by (rule trim_nonneg[OF c])+
  have "c Easy + c Medium + c Hard - excess = totalQuestions"
    unfolding assms(5) by simp
  with trim_sum[OF c c c ex] have 3: "r Easy + r Medium + r Hard = totalQuestions"
    unfolding rs by (simp only:)
  show ?thesis
    by (intro exI[of _ r] conjI cd 1 2 3)
qed

theorem trim_Hard_Medium_Easy_witness:
  "0 < totalWeight (difficulties scenarioConfig) \<and> (0::int) \<le> 5 \<and>
   5 < clamped 5 (difficulties scenarioConfig) (getAllQuestions questionStore) Easy
     + clamped 5 (difficulties scenarioConfig) (getAllQuestions questionStore) Medium
     + clamped 5 (difficulties scenarioConfig) (getAllQuestions questionStore) Hard \<and>
   (\<exists>distribution.
      calculateDistribution 5 (difficulties scenarioConfig) (getAllQuestions questionStore) = Some distribution \<and>
      distribution Hard = 1 \<and> distribution Medium = 2 \<and> distribution Easy = 2 \<and>
      0 \<le> distribution Hard \<and> 0 \<le> distribution Medium \<and> 0 \<le> distribution Easy \<and>
      distribution Easy + distribution Medium + distribution Hard = 5)"
  using trim_Hard_Medium_Easy [of "difficulties scenarioConfig" 5 _ "getAllQuestions questionStore",
      OF _ _ refl _ refl refl refl refl]
  by (simp add: scenario_fields getAll_sample clamped_sample)

text \<open>
  C4. When the configuration lists topics, every question of the exam has one of the
  listed topics, in every state that the store can reach and for every sequence of random
  numbers.
\<close>

theorem generateExam_respects_topics:
  assumes "reachable s" and "topics cfg \<noteq> []"
  shows "\<forall>q \<in> set (questions (fst (generateExam s now rnd cfg))). topic q \<in> set (topics cfg)"
proof
  fix q assume "q \<in> set (questions (fst (generateExam s now rnd cfg)))"
  with generateExam_questions_subset have "q \<in> set (getAvailableQuestions s (topics cfg))" by blast
  with assms(2) obtain t where t: "t \<in> set (topics cfg)" "q \<in> set (getQuestionsByTopic s t)"
    by (auto simp: getAvailableQuestions_def)
  then obtain b where b: "map_of (store s) t = Some b" "q \<in> set (b Easy @ b Medium @ b Hard)"
    by (cases "map_of (store s) t") (simp_all add: getQuestionsByTopic_def)
  then have "(t, b) \<in> set (store s)" by (simp add: map_of_SomeD)
  moreover from assms(1) have "store_inv s" by (rule reachable_inv)
  ultimately have "\<forall>d. \<forall>q \<in> set (b d). topic q = t" by (auto simp: store_inv_def)
  with b(2) have "topic q = t" by auto
  with t(1) show "topic q \<in> set (topics cfg)" by simp
qed

theorem generateExam_respects_topics_witness:
  "reachable questionStore \<and> topics topicsConfig \<noteq> [] \<and>
   questions (fst (generateExam questionStore 0 [] topicsConfig)) = [q1, q2] \<and>
   list_all (\<lambda>q. topic q \<in> set (topics topicsConfig))
     (questions (fst (generateExam questionStore 0 [] topicsConfig)))"
  using generateExam_respects_topics [OF reachable_questionStore, of topicsConfig 0 "[]"]
  by (simp add: reachable_questionStore topicsConfig_fields topicsConfig_exam list_all_iff)

text \<open>
  C5. Called with an empty list of topics and more questions than wanted (three easy
  questions, two wanted), the diversity selection returns the empty array at the check
  \<^verbatim>\<open>topicsWithQuestions.length === 0\<close>; it does not reach the second pass, draws no
  random number and returns none of the two questions asked for.
\<close>

theorem selectQuestionsWithDiversity_no_topics_is_empty:
  "selectQuestionsWithDiversity rnd [q2, q7, q1] 2 [] = ([], rnd)"
  by (simp add: selectQuestionsWithDiversity_def groupByTopic_def)

text \<open>
  C6. When there are more questions than wanted and no listed topic has a question among
  them (as is the case whenever no topic is listed), the diversity selection returns the
  empty sequence.
\<close>

theorem no_eligible_topic_selects_nothing:
  assumes "cnt < int (length qs)"
    and "\<not> (\<exists>t \<in> set tps. \<exists>q \<in> set qs. topic q = t)"
  shows "selectQuestionsWithDiversity rnd qs cnt tps = ([], rnd)"
  using assms by (rule select_none)

theorem no_eligible_topic_selects_nothing_witness:
  "(2::int) < int (length [q2, q7, q1]) \<and>
   \<not> (\<exists>t \<in> set [Graphs, Sorting]. \<exists>q \<in> set [q2, q7, q1]. topic q = t) \<and>
   selectQuestionsWithDiversity [5, 3] [q2, q7, q1] 2 [Graphs, Sorting] = ([], [5, 3]) \<and>
   selectQuestionsWithDiversity [5, 3] [q2, q7, q1] 2 [] = ([], [5, 3])"
  using no_eligible_topic_selects_nothing [of 2 "[q2, q7, q1]" "[Graphs, Sorting]" "[5, 3]"]
    no_eligible_topic_selects_nothing [of 2 "[q2, q7, q1]" "[]" "[5, 3]"]
  by (simp add: sample_topic)


section \<open>The graph: symmetry of the edges\<close>

lemma edgesOf_update:
  "edgesOf (AList.update a ns es) c = (if c = a then ns else edgesOf es c)"
  by (simp add: edgesOf_def update_conv')

lemma edgesOf_addEdge:
  "set (edgesOf (addEdge a b es) c) = (if c = a then insert b (set (edgesOf es a)) else set (edgesOf es c))"
  by (auto simp: addEdge_def Let_def edgesOf_update)

lemma edgesOf_link:
  "set (edgesOf (addEdge r x (addEdge x r es)) c) =
     (if c = r then insert x (set (edgesOf (addEdge x r es) r))
      else if c = x then insert r (set (edgesOf es x)) else set (edgesOf es c))"
  by (simp add: edgesOf_addEdge)

lemma link_ok:
  assumes "edges_ok N es" "x \<in> N" "r \<in> N"
  shows "edges_ok N (addEdge r x (addEdge x r es))"
  using assms unfolding edges_ok_def edgesOf_addEdge by (auto split: if_splits)

lemma fold_link_ok:
  "edges_ok N es \<Longrightarrow> x \<in> N \<Longrightarrow> set rs \<subseteq> N \<Longrightarrow>
   edges_ok N (fold (\<lambda>r es. addEdge r x (addEdge x r es)) rs es)"
proof (induction rs arbitrary: es)
  case Nil
  then show ?case by simp
next
  case (Cons r rs)
  from Cons.prems have "edges_ok N (addEdge r x (addEdge x r es))" by (intro link_ok) simp_all
  from Cons.IH[OF this] Cons.prems show ?case by simp
qed

lemma graph_inv_edges_ok: "graph_inv g \<longleftrightarrow> edges_ok {i. hasNode g i} (edges g)"
  by (simp add: graph_inv_def edges_ok_def)

lemma hasNode_update: "hasNode \<lparr> nodes = AList.update k q ns, edges = es \<rparr> i \<longleftrightarrow> i = k \<or> map_of ns i \<noteq> None"
  by (simp add: hasNode_def update_conv')

lemma graph_inv_new: "graph_inv newQuestionGraph"
  by (simp add: graph_inv_def newQuestionGraph_def edgesOf_def)

lemma graph_inv_add:
  assumes "graph_inv g"
  shows "graph_inv (fst (snd (addQuestion_graph g rnd q)))"
proof (cases "hasNode g (qid q)")
  case True
  with assms show ?thesis by (simp add: addQuestion_graph_def)
next
  case False
  define x where "x = qid q"
  define g' where "g' = \<lparr> nodes = AList.update x q (nodes g), edges = AList.update x [] (edges g) \<rparr>"
  define N where "N = {i. hasNode g' i}"
  define same where "same = map fst (filter (\<lambda>(i, q'). i \<noteq> x \<and> topic q' = topic q) (nodes g'))"
  obtain rs rnd' where p: "getRandomElements rnd same (min 3 (int (length same))) = (rs, rnd')"
    by (cases "getRandomElements rnd same (min 3 (int (length same)))")
  have N: "i \<in> N \<longleftrightarrow> i = x \<or> hasNode g i" for i
    by (simp add: N_def g'_def hasNode_update) (simp add: hasNode_def)
  from assms have sym: "\<And>a b. b \<in> set (edgesOf (edges g) a) \<Longrightarrow> a \<in> set (edgesOf (edges g) b)"
    and cl: "\<And>a b. b \<in> set (edgesOf (edges g) a) \<Longrightarrow> hasNode g b"
    by (auto simp: graph_inv_def)
  have nox: "x \<notin> set (edgesOf (edges g) a)" for a
    using cl[of x a] False by (auto simp: x_def)
  have emp: "edgesOf (edges g) x = []"
  proof (cases "edgesOf (edges g) x")
    case Nil
    then show ?thesis .
  next
    case (Cons b bs)
    then have "b \<in> set (edgesOf (edges g) x)" by simp
    from sym[OF this] nox show ?thesis by simp
  qed
  have e': "edgesOf (edges g') c = edgesOf (edges g) c" for c
    using emp by (simp add: g'_def edgesOf_update)
  have ok: "edges_ok N (edges g')"
    unfolding edges_ok_def e' using sym cl N by blast
  have "set same \<subseteq> fst ` set (nodes g')" by (auto simp: same_def)
  also have "\<dots> \<subseteq> N"
    by (auto simp: N_def hasNode_def map_of_eq_None_iff)
  finally have same: "set same \<subseteq> N" .
  from getRandomElements_subset[of rnd same "min 3 (int (length same))"] p same
  have rs: "set rs \<subseteq> N" by auto
  have x: "x \<in> N" by (simp add: N)
  have res: "fst (snd (addQuestion_graph g rnd q)) =
      g' \<lparr> edges := fold (\<lambda>r es. addEdge r x (addEdge x r es)) rs (edges g') \<rparr>"
    using False p
    by (simp add: addQuestion_graph_def findAndCreateRelationships_def Let_def x_def[symmetric]
        g'_def[symmetric] same_def[symmetric] del: length_map)
  have "{i. hasNode (g' \<lparr> edges := es \<rparr>) i} = N" for es
    by (simp add: hasNode_def N_def)
  then show ?thesis
    unfolding res graph_inv_edges_ok using fold_link_ok[OF ok x rs]
    by simp
qed

lemma edgesOf_remove:
  "edgesOf (map (\<lambda>(n, cs). (n, filter (\<lambda>c. c \<noteq> i) cs)) (AList.delete i es)) a
     = (if a = i then [] else filter (\<lambda>c. c \<noteq> i) (edgesOf es a))"
proof -
  have "map_of (map (\<lambda>(n, cs). (n, filter (\<lambda>c. c \<noteq> i) cs)) (AList.delete i es)) a
      = map_option (filter (\<lambda>c. c \<noteq> i)) (map_of (AList.delete i es) a)"
    by (induction es) auto
  then show ?thesis
    by (simp add: edgesOf_def delete_conv' split: option.splits)
qed

lemma graph_inv_remove:
  assumes "graph_inv g"
  shows "graph_inv (snd (removeQuestion_graph g i))"
proof (cases "hasNode g i")
  case False
  with assms show ?thesis by (simp add: removeQuestion_graph_def)
next
  case True
  have h: "hasNode (snd (removeQuestion_graph g i)) b \<longleftrightarrow> b \<noteq> i \<and> hasNode g b" for b
    using True by (auto simp: removeQuestion_graph_def hasNode_def delete_conv')
  have e: "edgesOf (edges (snd (removeQuestion_graph g i))) a
      = (if a = i then [] else filter (\<lambda>c. c \<noteq> i) (edgesOf (edges g) a))" for a
    using True by (simp add: removeQuestion_graph_def edgesOf_remove)
  from assms show ?thesis
    unfolding graph_inv_def h e by auto
qed

lemma reachable_graph_inv: "reachable_graph g \<Longrightarrow> graph_inv g"
  by (induction rule: reachable_graph.induct)
    (simp_all add: graph_inv_new graph_inv_add graph_inv_remove)

text \<open>
  C8. After any sequence of \<^verbatim>\<open>addQuestion\<close> and \<^verbatim>\<open>removeQuestion\<close> calls on an empty
  graph manager, whatever the random numbers are, the edges are symmetric: for two nodes
  \<open>a\<close> and \<open>b\<close>, \<open>a\<close> is in the adjacency list of \<open>b\<close> exactly when \<open>b\<close> is in the
  adjacency list of \<open>a\<close>.
\<close>

theorem edges_symmetric:
  assumes "reachable_graph g" and "hasNode g a" and "hasNode g b"
  shows "a \<in> set (edgesOf (edges g) b) \<longleftrightarrow> b \<in> set (edgesOf (edges g) a)"
  using reachable_graph_inv[OF assms(1)] unfolding graph_inv_def by blast

lemma reachable_relatedGraph: "reachable_graph relatedGraph"
  unfolding relatedGraph_def by (intro reachable_graph_add reachable_graph_new)

lemma relatedGraph_eq:
  "relatedGraph = \<lparr> nodes = [(''1'', q1), (''11'', q11)], edges = [(''1'', [''11'']), (''11'', [''1''])] \<rparr>"
  by (simp add: relatedGraph_def addQuestion_graph_def newQuestionGraph_def hasNode_def
      findAndCreateRelationships_def getRandomElements_def randomIndex_def q11_def sample_qid
      addEdge_def edgesOf_def Let_def)

theorem edges_symmetric_witness:
  "reachable_graph relatedGraph \<and> hasNode relatedGraph ''1'' \<and> hasNode relatedGraph ''11'' \<and>
   ''1'' \<in> set (edgesOf (edges relatedGraph) ''11'') \<and>
   ''11'' \<in> set (edgesOf (edges relatedGraph) ''1'')"
proof -
  have h: "hasNode relatedGraph ''1''" "hasNode relatedGraph ''11''"
    by (simp_all add: relatedGraph_eq hasNode_def)
  have e: "''11'' \<in> set (edgesOf (edges relatedGraph) ''1'')"
    by (simp add: relatedGraph_eq edgesOf_def)
  with edges_symmetric [OF reachable_relatedGraph h] reachable_relatedGraph h
  show ?thesis by simp
qed

section \<open>The graph: related questions\<close>

lemma set_unvisited: "set (unvisited V ns) = set ns - V"
  by (induction ns arbitrary: V) auto

lemma distinct_unvisited: "distinct (unvisited V ns)"
  by (induction ns arbitrary: V) (auto simp: set_unvisited)

lemma enqueueNeighbors_eq:
  "enqueueNeighbors ns depth (V, Q) = (V \<union> set ns, Q @ map (\<lambda>n. (n, depth + 1)) (unvisited V ns))"
  by (induction ns arbitrary: V Q) auto

lemma bfs_at_maxDepth:
  "(\<forall>(n, d) \<in> set Q. 0 < d \<and> maxDepth \<le> int d) \<Longrightarrow>
   bfs g maxDepth V Q R = R @ List.map_filter (map_of (nodes g)) (map fst Q)"
proof (induction Q arbitrary: R)
  case Nil
  then show ?case by simp
next
  case (Cons p Q)
  obtain n d where p: "p = (n, d)" by (cases p)
  with Cons.prems have d: "0 < d" "maxDepth \<le> int d" and rest: "\<forall>(n, d) \<in> set Q. 0 < d \<and> maxDepth \<le> int d"
    by auto
  show ?case
    using d p Cons.IH[OF rest] by (cases "map_of (nodes g) n") simp_all
qed

text \<open>
  C9. For every graph and every id that is a node, \<^verbatim>\<open>getRelatedQuestions(id, 0)\<close> is
  empty and \<^verbatim>\<open>getRelatedQuestions(id, 1)\<close> is the list of the questions of the direct
  neighbours: the ids of the adjacency list other than \<open>id\<close> itself, each taken once, in
  the order of their first occurrence, with the question that the node map has for each.
  When every node is stored under the id of its question, no question occurs twice in
  the result and the start question is not in it.
\<close>

theorem getRelatedQuestions_depth_0_1:
  assumes "hasNode g i"
  shows "getRelatedQuestions g i 0 = [] \<and>
     getRelatedQuestions g i 1 =
       List.map_filter (map_of (nodes g)) (unvisited {i} (edgesOf (edges g) i)) \<and>
     distinct (unvisited {i} (edgesOf (edges g) i)) \<and>
     set (unvisited {i} (edgesOf (edges g) i)) = set (edgesOf (edges g) i) - {i} \<and>
     ((\<forall>(n, q) \<in> set (nodes g). qid q = n) \<longrightarrow>
        distinct (getRelatedQuestions g i 1) \<and>
        (\<forall>q \<in> set (getRelatedQuestions g i 1). qid q \<noteq> i))"
proof -
  have 0: "getRelatedQuestions g i 0 = []"
    using assms by (simp add: getRelatedQuestions_def)
  let ?ns = "unvisited {i} (edgesOf (edges g) i)"
  have "bfs g 1 {i} [(i, 0)] [] = bfs g 1 ({i} \<union> set (edgesOf (edges g) i)) (map (\<lambda>n. (n, 1)) ?ns) []"
    by (simp add: enqueueNeighbors_eq)
  also have "\<dots> = [] @ List.map_filter (map_of (nodes g)) (map fst (map (\<lambda>n. (n, 1::nat)) ?ns))"
    by (rule bfs_at_maxDepth) auto
  finally have 1: "getRelatedQuestions g i 1 = List.map_filter (map_of (nodes g)) ?ns"
    using assms by (simp add: getRelatedQuestions_def comp_def)
  have keyed: "distinct (List.map_filter (map_of (nodes g)) ?ns) \<and>
        (\<forall>q \<in> set (List.map_filter (map_of (nodes g)) ?ns). qid q \<noteq> i)"
    if k: "\<forall>(n, q) \<in> set (nodes g). qid q = n"
  proof -
    have key: "map_of (nodes g) n = Some q \<Longrightarrow> qid q = n" for n q
      using k by (auto dest: map_of_SomeD)
    have "map qid (List.map_filter (map_of (nodes g)) ns) = filter (\<lambda>n. map_of (nodes g) n \<noteq> None) ns" for ns
      by (induction ns) (auto simp: key split: option.splits)
    then have m: "map qid (List.map_filter (map_of (nodes g)) ?ns) = filter (\<lambda>n. map_of (nodes g) n \<noteq> None) ?ns" .
    have "distinct (map qid (List.map_filter (map_of (nodes g)) ?ns))"
      unfolding m by (simp add: distinct_unvisited)
    then have d: "distinct (List.map_filter (map_of (nodes g)) ?ns)" by (simp add: distinct_map)
    have "i \<notin> set (map qid (List.map_filter (map_of (nodes g)) ?ns))"
      unfolding m by (simp add: set_unvisited)
    then have "\<forall>q \<in> set (List.map_filter (map_of (nodes g)) ?ns). qid q \<noteq> i" by auto
    with d show ?thesis by simp
  qed
  from 0 1 keyed show ?thesis
    by (simp add: distinct_unvisited set_unvisited)
qed

lemma relatedGraph_keyed: "\<forall>(n, q) \<in> set (nodes relatedGraph). qid q = n"
  by (simp add: relatedGraph_eq sample_qid q11_def)

theorem getRelatedQuestions_depth_0_1_witness:
  "hasNode relatedGraph ''1'' \<and>
   getRelatedQuestions relatedGraph ''1'' 0 = [] \<and>
   getRelatedQuestions relatedGraph ''1'' 1 = [q11] \<and>
   distinct (getRelatedQuestions relatedGraph ''1'' 1) \<and>
   list_all (\<lambda>q. qid q \<noteq> ''1'') (getRelatedQuestions relatedGraph ''1'' 1)"
proof -
  have h: "hasNode relatedGraph ''1''" by (simp add: relatedGraph_eq hasNode_def)
  have u: "List.map_filter (map_of (nodes relatedGraph)) (unvisited {''1''} (edgesOf (edges relatedGraph) ''1'')) = [q11]"
    by (simp add: relatedGraph_eq edgesOf_def)
  from getRelatedQuestions_depth_0_1 [OF h] relatedGraph_keyed h u
  show ?thesis by (simp add: list_all_iff)
qed


section \<open>The selector writes to its own arrays only\<close>

lemma frame_refl: "frame n h h"
  by (simp add: frame_def)

lemma frame_trans: "frame n h1 h2 \<Longrightarrow> frame n h2 h3 \<Longrightarrow> frame n h1 h3"
  by (auto simp: frame_def)

lemma frame_nextRef: "frame n h h' \<Longrightarrow> n \<le> nextRef h \<Longrightarrow> n \<le> nextRef h'"
  by (simp add: frame_def)

lemma newArray_frame:
  assumes "newArray xs h = (r, h')" and "n \<le> nextRef h"
  shows "frame n h h'" and "n \<le> r" and "n \<le> nextRef h'"
  using assms by (auto simp: newArray_def frame_def)

lemma push_frame: "n \<le> r \<Longrightarrow> frame n h (push r xs h)"
  by (simp add: push_def frame_def)

lemma splice_frame: "n \<le> r \<Longrightarrow> frame n h (splice r i h)"
  by (simp add: splice_def frame_def)

lemma spliceFirst_frame: "n \<le> r \<Longrightarrow> frame n h (spliceFirst r q h)"
  by (simp add: spliceFirst_def frame_def)

lemma fold_frame:
  assumes "\<And>x h. frame n h (f x h)"
  shows "frame n h (fold f xs h)"
proof (induction xs arbitrary: h)
  case Nil
  show ?case by (simp add: frame_refl)
next
  case (Cons x xs)
  have "frame n h (f x h)" by (rule assms)
  moreover have "frame n (f x h) (fold f xs (f x h))" by (rule Cons.IH)
  ultimately show ?case by (simp add: frame_trans)
qed

lemma pickRandom_heap_frame:
  "n \<le> copy \<Longrightarrow> n \<le> result \<Longrightarrow> frame n h (snd (pickRandom_heap k rnd copy result h))"
proof (induction k arbitrary: rnd h)
  case 0
  show ?case by (simp add: frame_refl)
next
  case (Suc k)
  show ?case
  proof (cases "arrays h copy = []")
    case True
    then show ?thesis by (simp add: frame_refl)
  next
    case False
    obtain i rnd' where r: "randomIndex rnd (length (arrays h copy)) = (i, rnd')"
      by (cases "randomIndex rnd (length (arrays h copy))")
    define h2 where "h2 = splice copy i (push result [arrays h copy ! i] h)"
    have "frame n h h2" unfolding h2_def
      using Suc.prems by (intro frame_trans[OF push_frame splice_frame])
    moreover have "frame n h2 (snd (pickRandom_heap k rnd' copy result h2))"
      using Suc.prems by (intro Suc.IH)
    ultimately show ?thesis using False r by (simp add: h2_def frame_trans)
  qed
qed

lemma getRandomElements_heap_frame:
  assumes "getRandomElements_heap rnd a cnt h = (r, rnd', h')" and "n \<le> nextRef h"
  shows "frame n h h'" and "n \<le> r" and "n \<le> nextRef h'"
proof -
  obtain copy h1 where 1: "newArray (arrays h a) h = (copy, h1)" by (cases "newArray (arrays h a) h")
  obtain result h2 where 2: "newArray [] h1 = (result, h2)" by (cases "newArray [] h1")
  obtain rnd3 h3 where 3: "pickRandom_heap (nat cnt) rnd copy result h2 = (rnd3, h3)"
    by (cases "pickRandom_heap (nat cnt) rnd copy result h2")
  from assms(1) 1 2 3 have eq: "r = result" "h' = h3"
    by (simp_all add: getRandomElements_heap_def)
  note f1 = newArray_frame[OF 1 assms(2)]
  note f2 = newArray_frame[OF 2 f1(3)]
  from pickRandom_heap_frame[OF f1(2) f2(2), of h2 "nat cnt" rnd] 3 have f3: "frame n h2 h3" by simp
  show "frame n h h'" using f1(1) f2(1) f3 eq by (blast intro: frame_trans)
  show "n \<le> r" using f2(2) eq by simp
  show "n \<le> nextRef h'" using frame_nextRef[OF f3 f2(3)] eq by simp
qed

lemma getAllQuestions_heap_frame:
  assumes "getAllQuestions_heap so h = (r, h')" and "n \<le> nextRef h"
  shows "frame n h h'" and "n \<le> r" and "n \<le> nextRef h'"
proof -
  obtain result h1 where 1: "newArray [] h = (result, h1)" by (cases "newArray [] h")
  note f1 = newArray_frame[OF 1 assms(2)]
  define step where "step = (\<lambda>(t :: Topic, b :: Difficulty \<Rightarrow> ref) h.
      push result (arrays h (b Easy) @ arrays h (b Medium) @ arrays h (b Hard)) h)"
  have "frame n h (step x h)" for x h
    unfolding step_def using f1(2) by (cases x) (simp add: push_frame)
  then have f2: "frame n h1 (fold step (bucketRefs so) h1)" by (rule fold_frame)
  from assms(1) 1 have eq: "r = result" "h' = fold step (bucketRefs so) h1"
    by (auto simp: getAllQuestions_heap_def step_def)
  show "frame n h h'" using f1(1) f2 eq by (blast intro: frame_trans)
  show "n \<le> r" using f1(2) eq by simp
  show "n \<le> nextRef h'" using frame_nextRef[OF f2 f1(3)] eq by simp
qed

lemma getQuestionsByTopic_heap_frame:
  assumes "getQuestionsByTopic_heap so t h = (r, h')" and "n \<le> nextRef h"
  shows "frame n h h'" and "n \<le> r" and "n \<le> nextRef h'"
  using assms newArray_frame[of _ h r h' n]
  by (auto simp: getQuestionsByTopic_heap_def split: option.splits)

lemma getAvailableQuestions_heap_frame:
  assumes "getAvailableQuestions_heap so tps h = (r, h')" and "n \<le> nextRef h"
  shows "frame n h h'" and "n \<le> r" and "n \<le> nextRef h'"
proof -
  have "frame n h h' \<and> n \<le> r \<and> n \<le> nextRef h'"
  proof (cases "length tps = 0")
    case True
    with assms(1) have "getAllQuestions_heap so h = (r, h')"
      by (simp add: getAvailableQuestions_heap_def)
    from getAllQuestions_heap_frame[OF this assms(2)] show ?thesis by simp
  next
    case False
    obtain questionsA h1 where 1: "newArray [] h = (questionsA, h1)" by (cases "newArray [] h")
    note f1 = newArray_frame[OF 1 assms(2)]
    define step where "step = (\<lambda>t h. let (byTopic, h') = getQuestionsByTopic_heap so t h
                        in push questionsA (arrays h' byTopic) h')"
    have st: "n \<le> nextRef h \<Longrightarrow> frame n h (step t h)" for t h
    proof -
      assume a: "n \<le> nextRef h"
      obtain b hb where g: "getQuestionsByTopic_heap so t h = (b, hb)"
        by (cases "getQuestionsByTopic_heap so t h")
      from getQuestionsByTopic_heap_frame[OF g a] have "frame n h hb" by simp
      moreover have "frame n hb (push questionsA (arrays hb b) hb)" using f1(2) by (rule push_frame)
      ultimately show ?thesis using g by (simp add: step_def frame_trans)
    qed
    have f2: "n \<le> nextRef h \<Longrightarrow> frame n h (fold step ts h)" for ts h
    proof (induction ts arbitrary: h)
      case Nil
      show ?case by (simp add: frame_refl)
    next
      case (Cons t ts)
      from st[OF Cons.prems] have s: "frame n h (step t h)" .
      from frame_nextRef[OF s Cons.prems] have "n \<le> nextRef (step t h)" .
      from Cons.IH[OF this] s show ?case by (simp add: frame_trans)
    qed
    from assms(1) 1 False have eq: "r = questionsA" "h' = fold step tps h1"
      by (auto simp: getAvailableQuestions_heap_def step_def)
    from f2[OF f1(3), of tps] have f3: "frame n h1 h'" using eq by simp
    show ?thesis using f1 f3 eq frame_nextRef[OF f3 f1(3)] by (blast intro: frame_trans)
  qed
  then show "frame n h h'" and "n \<le> r" and "n \<le> nextRef h'" by simp_all
qed

lemma allocate_groups_frame:
  assumes "fold (\<lambda>t (m, h). let (r, h') = newArray [] h in (m(t \<mapsto> r), h')) tps
      (m0 :: Topic \<Rightarrow> ref option, h) = (m, h')"
    and "n \<le> nextRef h" and "\<And>t r. m0 t = Some r \<Longrightarrow> n \<le> r"
  shows "frame n h h' \<and> n \<le> nextRef h' \<and> (\<forall>t r. m t = Some r \<longrightarrow> n \<le> r)"
proof -
  define F where "F = (\<lambda>t (m :: Topic \<Rightarrow> ref option, h). let (r, h') = newArray [] h in (m(t \<mapsto> r), h'))"
  have "fold F tps (m0, h) = (m, h') \<Longrightarrow> n \<le> nextRef h \<Longrightarrow> (\<And>t r. m0 t = Some r \<Longrightarrow> n \<le> r) \<Longrightarrow>
      frame n h h' \<and> n \<le> nextRef h' \<and> (\<forall>t r. m t = Some r \<longrightarrow> n \<le> r)"
  proof (induction tps arbitrary: m0 h)
    case Nil
    then show ?case by (auto simp: frame_refl)
  next
    case (Cons t tps)
    obtain r h1 where 1: "newArray [] h = (r, h1)" by (cases "newArray [] h")
    note f1 = newArray_frame[OF 1 Cons.prems(2)]
    have "F t (m0, h) = (m0(t \<mapsto> r), h1)" using 1 by (simp add: F_def)
    with Cons.prems(1) have 2: "fold F tps (m0(t \<mapsto> r), h1) = (m, h')" by simp
    have refs: "n \<le> r'" if "(m0(t \<mapsto> r)) t' = Some r'" for t' r'
      using that Cons.prems(3) f1(2) by (cases "t' = t") auto
    have "frame n h1 h' \<and> n \<le> nextRef h' \<and> (\<forall>t r. m t = Some r \<longrightarrow> n \<le> r)"
      by (rule Cons.IH[OF 2 f1(3)]) (rule refs)
    with f1(1) show ?case by (blast intro: frame_trans)
  qed
  with assms show ?thesis by (simp add: F_def)
qed

lemma groupByTopic_heap_frame:
  assumes "groupByTopic_heap a tps h = (m, h')" and "n \<le> nextRef h"
  shows "frame n h h'" and "n \<le> nextRef h'" and "\<And>t r. m t = Some r \<Longrightarrow> n \<le> r"
proof -
  obtain m1 h1 where 1: "fold (\<lambda>t (m, h). let (r, h') = newArray [] h in (m(t \<mapsto> r), h')) tps (Map.empty, h) = (m1, h1)"
    by (cases "fold (\<lambda>t (m, h). let (r, h') = newArray [] h in (m(t \<mapsto> r), h')) tps (Map.empty, h)")
  from allocate_groups_frame[OF 1 assms(2)]
  have f1: "frame n h h1" "n \<le> nextRef h1" and refs: "\<And>t r. m1 t = Some r \<Longrightarrow> n \<le> r" by auto
  define step where "step = (\<lambda>q h. case m1 (topic q) of None \<Rightarrow> h | Some r \<Rightarrow> push r [q] h)"
  have "frame n h (step q h)" for q h
    unfolding step_def using refs by (auto simp: frame_refl push_frame split: option.splits)
  then have f2: "frame n h1 (fold step (arrays h1 a) h1)" by (rule fold_frame)
  from assms(1) 1 have eq: "m = m1" "h' = fold step (arrays h1 a) h1"
    by (auto simp: groupByTopic_heap_def step_def)
  show "frame n h h'" using f1(1) f2 eq by (blast intro: frame_trans)
  show "n \<le> nextRef h'" using frame_nextRef[OF f2 f1(2)] eq by simp
  show "\<And>t r. m t = Some r \<Longrightarrow> n \<le> r" using refs eq by simp
qed

lemma selectFromTopic_heap_frame:
  assumes "local_refs n st"
  shows "frame n (heapH st) (heapH (selectFromTopic_heap base t st))"
    and "local_refs n (selectFromTopic_heap base t st)"
proof -
  have "frame n (heapH st) (heapH (selectFromTopic_heap base t st)) \<and>
        local_refs n (selectFromTopic_heap base t st)"
  proof (cases "refsByTopic st t")
    case None
    with assms show ?thesis by (simp add: selectFromTopic_heap_def frame_refl)
  next
    case (Some tq)
    define h where "h = heapH st"
    define c0 where "c0 = min base (int (length (arrays h tq)))"
    define extra where "extra \<longleftrightarrow> remainderH st > 0 \<and> int (length (arrays h tq)) > c0"
    define c where "c = (if extra then c0 + 1 else c0)"
    obtain sf rnd' h1 where g: "getRandomElements_heap (randomsH st) tq c h = (sf, rnd', h1)"
      by (cases "getRandomElements_heap (randomsH st) tq c h") auto
    define h2 where "h2 = push (selectedRef st) (arrays h1 sf) h1"
    define h3 where "h3 = fold (spliceFirst tq) (arrays h2 sf) h2"
    from assms have n: "n \<le> nextRef h" "n \<le> selectedRef st" "n \<le> tq"
      and refs: "\<forall>t r. refsByTopic st t = Some r \<longrightarrow> n \<le> r"
      using Some by (auto simp: local_refs_def h_def)
    note f1 = getRandomElements_heap_frame[OF g n(1)]
    have f2: "frame n h1 h2" unfolding h2_def using n(2) by (rule push_frame)
    have f3: "frame n h2 h3" unfolding h3_def using n(3) by (intro fold_frame spliceFirst_frame)
    have res: "selectFromTopic_heap base t st =
        st \<lparr> remainderH := (if extra then remainderH st - 1 else remainderH st),
             remainingCountH := remainingCountH st - c, randomsH := rnd', heapH := h3 \<rparr>"
      using Some g unfolding c_def
      by (cases extra) (simp_all add: selectFromTopic_heap_def Let_def h_def[symmetric] c0_def[symmetric]
          extra_def[symmetric] h2_def[symmetric] h3_def[symmetric])
    have f: "frame n h h3" using f1(1) f2 f3 by (blast intro: frame_trans)
    from frame_nextRef[OF f n(1)] n(2) refs
    show ?thesis unfolding res using f by (simp add: local_refs_def h_def)
  qed
  then show "frame n (heapH st) (heapH (selectFromTopic_heap base t st))"
    and "local_refs n (selectFromTopic_heap base t st)" by simp_all
qed

lemma fold_selectFromTopic_heap_frame:
  "local_refs n st \<Longrightarrow>
   frame n (heapH st) (heapH (fold (selectFromTopic_heap base) ts st)) \<and>
   local_refs n (fold (selectFromTopic_heap base) ts st)"
proof (induction ts arbitrary: st)
  case Nil
  then show ?case by (simp add: frame_refl)
next
  case (Cons t ts)
  note s = selectFromTopic_heap_frame[OF Cons.prems, of base t]
  from Cons.IH[OF s(2)] s(1) show ?case by (auto intro: frame_trans)
qed

lemma selectedRef_fold:
  "selectedRef (fold (selectFromTopic_heap base) ts st) = selectedRef st"
proof (induction ts arbitrary: st)
  case Nil
  show ?case by simp
next
  case (Cons t ts)
  have "selectedRef (selectFromTopic_heap base t st) = selectedRef st"
    by (simp add: selectFromTopic_heap_def Let_def split: option.splits prod.splits)
  with Cons.IH[of "selectFromTopic_heap base t st"] show ?case by simp
qed

lemma selectQuestionsWithDiversity_heap_frame:
  assumes "selectQuestionsWithDiversity_heap rnd a cnt tps h = (r, rnd', h')" and "n \<le> nextRef h"
  shows "frame n h h'" and "n \<le> nextRef h'"
proof -
  have "frame n h h' \<and> n \<le> nextRef h'"
  proof (cases "int (length (arrays h a)) \<le> cnt")
    case True
    obtain c hc where 1: "newArray (arrays h a) h = (c, hc)" by (cases "newArray (arrays h a) h")
    with True assms(1) have "h' = hc" by (simp add: selectQuestionsWithDiversity_heap_def)
    with newArray_frame[OF 1 assms(2)] show ?thesis by simp
  next
    case False
    obtain m h1 where 1: "groupByTopic_heap a tps h = (m, h1)" by (cases "groupByTopic_heap a tps h")
    note f1 = groupByTopic_heap_frame[OF 1 assms(2)]
    obtain sel h2 where 2: "newArray [] h1 = (sel, h2)" by (cases "newArray [] h1")
    note f2 = newArray_frame[OF 2 f1(2)]
    have f12: "frame n h h2" using f1(1) f2(1) by (rule frame_trans)
    define tw where "tw = filter (\<lambda>t. case m t of None \<Rightarrow> False | Some r \<Rightarrow> length (arrays h2 r) > 0) tps"
    show ?thesis
    proof (cases "length tw = 0")
      case True
      obtain e he where 3: "newArray [] h2 = (e, he)" by (cases "newArray [] h2")
      from assms(1) False 1 2 3 True have "h' = he"
        by (simp add: selectQuestionsWithDiversity_heap_def tw_def[symmetric])
      with newArray_frame[OF 3 f2(3)] f12 show ?thesis by (auto intro: frame_trans)
    next
      case nonempty: False
      define base where "base = cnt div int (length tw)"
      define st0 where "st0 = \<lparr> selectedRef = sel, refsByTopic = m,
          remainderH = jsRemainder cnt (int (length tw)), remainingCountH = cnt,
          randomsH = rnd, heapH = h2 \<rparr>"
      define st where "st = fold (selectFromTopic_heap base) tw st0"
      have "local_refs n st0" using f1(3) f2(2,3) by (auto simp: local_refs_def st0_def)
      from fold_selectFromTopic_heap_frame[OF this, of base tw]
      have f3: "frame n h2 (heapH st)" and l: "local_refs n st"
        by (simp_all add: st_def st0_def)
      have n3: "n \<le> nextRef (heapH st)" using l by (simp add: local_refs_def)
      show ?thesis
      proof (cases "remainingCountH st > 0")
        case False
        with assms(1) \<open>\<not> int (length (arrays h a)) \<le> cnt\<close> 1 2 nonempty have "h' = heapH st"
          by (simp add: selectQuestionsWithDiversity_heap_def tw_def[symmetric] Let_def
              base_def[symmetric] st0_def[symmetric] st_def[symmetric])
        with f12 f3 n3 show ?thesis by (auto intro: frame_trans)
      next
        case True
        define h3 where "h3 = heapH st"
        obtain rem h4 where 4: "newArray (filter (\<lambda>q. q \<notin> set (arrays h3 sel)) (arrays h3 a)) h3 = (rem, h4)"
          by (cases "newArray (filter (\<lambda>q. q \<notin> set (arrays h3 sel)) (arrays h3 a)) h3")
        note f4 = newArray_frame[OF 4 n3[folded h3_def]]
        obtain ad rnd5 h5 where 5: "getRandomElements_heap (randomsH st) rem (remainingCountH st) h4 = (ad, rnd5, h5)"
          by (cases "getRandomElements_heap (randomsH st) rem (remainingCountH st) h4") auto
        note f5 = getRandomElements_heap_frame[OF 5 f4(3)]
        have f6: "frame n h5 (push sel (arrays h5 ad) h5)" using f2(2) by (rule push_frame)
        from assms(1) \<open>\<not> int (length (arrays h a)) \<le> cnt\<close> 1 2 nonempty True 4 5
        have "h' = push sel (arrays h5 ad) h5"
          by (auto simp: selectQuestionsWithDiversity_heap_def tw_def[symmetric] Let_def
              base_def[symmetric] st0_def[symmetric] st_def[symmetric] h3_def[symmetric])
        moreover have "frame n h (push sel (arrays h5 ad) h5)"
          using f12 f3[folded h3_def] f4(1) f5(1) f6 by (blast intro: frame_trans)
        ultimately show ?thesis using frame_nextRef[OF _ assms(2)] by simp
      qed
    qed
  qed
  then show "frame n h h'" and "n \<le> nextRef h'" by simp_all
qed

lemma selectForDifficulty_heap_frame:
  assumes "n \<le> nextRef h" and "n \<le> sq"
  shows "frame n h (snd (selectForDifficulty_heap av ds tps sq d (rnd, h)))"
proof (cases "ds d \<le> 0")
  case True
  then show ?thesis by (simp add: selectForDifficulty_heap_def frame_refl)
next
  case False
  obtain qd h1 where 1: "newArray (filter (\<lambda>q. difficulty q = d) (arrays h av)) h = (qd, h1)"
    by (cases "newArray (filter (\<lambda>q. difficulty q = d) (arrays h av)) h")
  note f1 = newArray_frame[OF 1 assms(1)]
  define c where "c = min (ds d) (int (length (arrays h1 qd)))"
  obtain p rnd' h2 where 2: "selectQuestionsWithDiversity_heap rnd qd c tps h1 = (p, rnd', h2)"
    by (cases "selectQuestionsWithDiversity_heap rnd qd c tps h1") auto
  note f2 = selectQuestionsWithDiversity_heap_frame[OF 2 f1(3)]
  have f3: "frame n h2 (push sq (arrays h2 p) h2)" using assms(2) by (rule push_frame)
  from False 1 2 have "snd (selectForDifficulty_heap av ds tps sq d (rnd, h)) = push sq (arrays h2 p) h2"
    by (simp add: selectForDifficulty_heap_def Let_def c_def[symmetric])
  with f1(1) f2(1) f3 show ?thesis by (auto intro: frame_trans)
qed

lemma rounds_heap_frame:
  assumes "n \<le> nextRef h" and "n \<le> sq"
  shows "frame n h (snd (fold (selectForDifficulty_heap av ds tps sq) xs (rnd, h)))"
  using assms(1)
proof (induction xs arbitrary: rnd h)
  case Nil
  show ?case by (simp add: frame_refl)
next
  case (Cons d xs)
  obtain rnd1 h1 where 1: "selectForDifficulty_heap av ds tps sq d (rnd, h) = (rnd1, h1)"
    by (cases "selectForDifficulty_heap av ds tps sq d (rnd, h)")
  from selectForDifficulty_heap_frame[OF Cons.prems assms(2), of av ds tps d rnd] 1
  have f1: "frame n h h1" by simp
  from Cons.IH[OF frame_nextRef[OF f1 Cons.prems], of rnd1] f1 1
  show ?case by (auto intro: frame_trans)
qed

lemma generateExam_heap_frame:
  "frame (nextRef h) h (snd (snd (generateExam_heap so rnd cfg h)))"
proof -
  let ?n = "nextRef h"
  obtain sq h1 where 1: "newArray [] h = (sq, h1)" by (cases "newArray [] h")
  note f1 = newArray_frame[OF 1 order_refl]
  obtain av h2 where 2: "getAvailableQuestions_heap so (topics cfg) h1 = (av, h2)"
    by (cases "getAvailableQuestions_heap so (topics cfg) h1")
  note f2 = getAvailableQuestions_heap_frame[OF 2 f1(3)]
  have f12: "frame ?n h h2" using f1(1) f2(1) by (rule frame_trans)
  show ?thesis
  proof (cases "calculateDistribution (numQuestions cfg) (difficulties cfg) (arrays h2 av)")
    case None
    with 1 2 f12 show ?thesis by (simp add: generateExam_heap_def)
  next
    case (Some ds)
    from rounds_heap_frame[OF f2(3) f1(2), of av ds "topics cfg" "[Easy, Medium, Hard]" rnd]
    have "frame ?n h2 (snd (fold (selectForDifficulty_heap av ds (topics cfg) sq) [Easy, Medium, Hard] (rnd, h2)))" .
    with f12 have "frame ?n h (snd (fold (selectForDifficulty_heap av ds (topics cfg) sq) [Easy, Medium, Hard] (rnd, h2)))"
      by (rule frame_trans)
    with 1 2 Some show ?thesis
      by (simp add: generateExam_heap_def case_prod_unfold)
  qed
qed

text \<open>
  C10. \<^verbatim>\<open>generateExam\<close> does not change the store it reads: for every configuration,
  every sequence of random numbers and every heap in which the buckets of the store are
  allocated arrays, the store read off the heap after the call (the contents of every
  topic and difficulty bucket, and the id set) is the store read off the heap before it.
  All writes of the call go to arrays that the call has created.
\<close>

theorem generateExam_heap_keeps_store:
  assumes "store_allocated so h"
  shows "storeOf so (snd (snd (generateExam_heap so rnd cfg h))) = storeOf so h"
proof -
  let ?h' = "snd (snd (generateExam_heap so rnd cfg h))"
  from generateExam_heap_frame[of h so rnd cfg]
  have same: "\<And>a. a < nextRef h \<Longrightarrow> arrays ?h' a = arrays h a" by (simp add: frame_def)
  have "(\<lambda>d. arrays ?h' (b d)) = (\<lambda>d. arrays h (b d))" if "(t, b) \<in> set (bucketRefs so)" for t b
    using that assms same by (auto simp: store_allocated_def)
  then have "map (\<lambda>(t, b). (t, \<lambda>d. arrays ?h' (b d))) (bucketRefs so)
      = map (\<lambda>(t, b). (t, \<lambda>d. arrays h (b d))) (bucketRefs so)"
    by (intro map_cong) auto
  then show ?thesis by (simp add: storeOf_def)
qed

lemma store_allocated_iff:
  "store_allocated so h \<longleftrightarrow> (\<forall>t b d. (t, b) \<in> set (bucketRefs so) \<longrightarrow> b d < nextRef h)"
  by (auto simp: store_allocated_def)

lemma store_allocated_mono:
  assumes "store_allocated so h" and "nextRef h \<le> nextRef h'"
  shows "store_allocated so h'"
  unfolding store_allocated_iff
proof (intro allI impI)
  fix t b d assume "(t, b) \<in> set (bucketRefs so)"
  with assms(1) have "b d < nextRef h" by (simp add: store_allocated_iff)
  with assms(2) show "b d < nextRef h'" by simp
qed

lemma newBuckets_allocated:
  assumes "newBuckets h = (b, h')"
  shows "nextRef h \<le> nextRef h'" and "\<And>d. b d < nextRef h'"
proof -
  obtain e h1 where 1: "newArray [] h = (e, h1)" by (cases "newArray [] h")
  obtain m h2 where 2: "newArray [] h1 = (m, h2)" by (cases "newArray [] h1")
  obtain hd h3 where 3: "newArray [] h2 = (hd, h3)" by (cases "newArray [] h2")
  from assms 1 2 3 have b: "b = (\<lambda>d. case d of Easy \<Rightarrow> e | Medium \<Rightarrow> m | Hard \<Rightarrow> hd)" "h' = h3"
    by (auto simp: newBuckets_def)
  from 1 2 3 have n: "e = nextRef h" "m = Suc e" "hd = Suc m" "nextRef h3 = Suc hd"
    by (auto simp: newArray_def)
  show "nextRef h \<le> nextRef h'" using n b by simp
  show "b d < nextRef h'" for d using n b by (cases d) simp_all
qed

lemma newQuestionStore_heap_allocated:
  "store_allocated (fst (newQuestionStore_heap h)) (snd (newQuestionStore_heap h))"
proof -
  define F where "F = (\<lambda>(t :: Topic) (bs :: (Topic \<times> (Difficulty \<Rightarrow> ref)) list, h).
      let (b, h') = newBuckets h in (bs @ [(t, b)], h'))"
  have "(\<forall>t b d. (t, b) \<in> set bs \<longrightarrow> b d < nextRef h) \<Longrightarrow>
      (\<forall>t b d. (t, b) \<in> set (fst (fold F ts (bs, h))) \<longrightarrow> b d < nextRef (snd (fold F ts (bs, h))))" for ts bs h
  proof (induction ts arbitrary: bs h)
    case Nil
    then show ?case by simp
  next
    case (Cons t ts)
    obtain b h' where nb: "newBuckets h = (b, h')" by (cases "newBuckets h")
    note a = newBuckets_allocated[OF nb]
    have "\<forall>t' b' d. (t', b') \<in> set (bs @ [(t, b)]) \<longrightarrow> b' d < nextRef h'"
    proof (intro allI impI)
      fix t' b' d assume "(t', b') \<in> set (bs @ [(t, b)])"
      then consider "(t', b') \<in> set bs" | "b' = b" by auto
      then show "b' d < nextRef h'"
      proof cases
        case 1
        with Cons.prems have "b' d < nextRef h" by blast
        with a(1) show ?thesis by simp
      next
        case 2
        with a(2) show ?thesis by simp
      qed
    qed
    from Cons.IH[OF this] nb show ?case by (simp add: F_def)
  qed
  from this[of "[]" h allTopics] show ?thesis
    by (simp add: newQuestionStore_heap_def store_allocated_iff F_def case_prod_unfold Let_def)
qed

lemma set_update_subset: "set (AList.update k v al) \<subseteq> insert (k, v) (set al)"
  by (induction al) auto

lemma addQuestion_heap_allocated:
  assumes "store_allocated so h"
  shows "store_allocated (fst (snd (addQuestion_heap so q h))) (snd (snd (addQuestion_heap so q h)))"
proof (cases "qid q \<in> idSetOf so")
  case True
  with assms show ?thesis by (simp add: addQuestion_heap_def)
next
  case False
  obtain b h1 where c: "(case map_of (bucketRefs so) (topic q) of None \<Rightarrow> newBuckets h | Some b \<Rightarrow> (b, h)) = (b, h1)"
    by (cases "case map_of (bucketRefs so) (topic q) of None \<Rightarrow> newBuckets h | Some b \<Rightarrow> (b, h)")
  have le: "nextRef h \<le> nextRef h1" and b: "\<And>d. b d < nextRef h1"
  proof -
    show "nextRef h \<le> nextRef h1"
      using c newBuckets_allocated(1)[of h b h1] by (auto split: option.splits)
    show "b d < nextRef h1" for d
    proof (cases "map_of (bucketRefs so) (topic q)")
      case None
      with c newBuckets_allocated(2)[of h b h1] show ?thesis by simp
    next
      case (Some b')
      with c have "b' = b" "h1 = h" by simp_all
      with assms map_of_SomeD[OF Some] show ?thesis by (simp add: store_allocated_iff)
    qed
  qed
  have "\<forall>t b' d. (t, b') \<in> set (AList.update (topic q) b (bucketRefs so)) \<longrightarrow> b' d < nextRef h1"
  proof (intro allI impI)
    fix t b' d assume "(t, b') \<in> set (AList.update (topic q) b (bucketRefs so))"
    with set_update_subset[of "topic q" b "bucketRefs so"]
    consider "b' = b" | "(t, b') \<in> set (bucketRefs so)" by auto
    then show "b' d < nextRef h1"
    proof cases
      case 1
      with b show ?thesis by simp
    next
      case 2
      with store_allocated_mono[OF assms le] show ?thesis by (simp add: store_allocated_iff)
    qed
  qed
  then show ?thesis using False c
    by (simp add: addQuestion_heap_def store_allocated_iff push_def)
qed

lemma sampleHeapStore_allocated: "store_allocated (fst sampleHeapStore) (snd sampleHeapStore)"
proof -
  have "store_allocated (fst p) (snd p) \<Longrightarrow>
      store_allocated (fst (fold (\<lambda>q (so, h). snd (addQuestion_heap so q h)) qs p))
                      (snd (fold (\<lambda>q (so, h). snd (addQuestion_heap so q h)) qs p))" for qs p
  proof (induction qs arbitrary: p)
    case Nil
    then show ?case by simp
  next
    case (Cons q qs)
    obtain so h where p: "p = (so, h)" by (cases p)
    with Cons.prems addQuestion_heap_allocated[of so h q] Cons.IH[of "snd (addQuestion_heap so q h)"]
    show ?case by simp
  qed
  from this[OF newQuestionStore_heap_allocated] show ?thesis by (simp add: sampleHeapStore_def)
qed

theorem generateExam_heap_keeps_store_witness:
  "store_allocated (fst sampleHeapStore) (snd sampleHeapStore) \<and>
   storeOf (fst sampleHeapStore)
     (snd (snd (generateExam_heap (fst sampleHeapStore) [4, 2] topicsConfig (snd sampleHeapStore))))
   = storeOf (fst sampleHeapStore) (snd sampleHeapStore)"
  using generateExam_heap_keeps_store [OF sampleHeapStore_allocated, of "[4, 2]" topicsConfig]
    sampleHeapStore_allocated
  by simp

end
